theory Spec2Isabelle
  imports Main "HOL-Library.Word"
begin

unbundle bit_operations_syntax

section \<open>Predictive Tap-Hold: data model\<close>

text \<open>
  A shallow embedding of \<^verbatim>\<open>predictive_tap_hold.c\<close>. The file-level static variables
  become one record that every function takes and returns. The firmware services the
  module calls (keymap lookup, modifier state, the HID sink) are outside the module:
  queries are fields of an environment record, and every call that sends something
  downstream appends an action to the trace \<open>out\<close> of the state.
\<close>

type_synonym uint8_t = "8 word"
type_synonym uint16_t = "16 word"

text \<open>An \<^verbatim>\<open>int16_t\<close> is kept as its 16 bits and read with \<^const>\<open>sint\<close>.\<close>

type_synonym int16_t = "16 word"

datatype pth_status_t =
  PTH_IDLE | PTH_PRESSED | PTH_SECOND_PRESSED | PTH_DECIDED_TAP | PTH_DECIDED_HOLD

text \<open>The enumerators in the order of the \<^verbatim>\<open>typedef enum\<close>, for the comparisons with \<^verbatim>\<open>>=\<close>.\<close>

fun status_num :: "pth_status_t \<Rightarrow> nat" where
  "status_num PTH_IDLE = 0"
| "status_num PTH_PRESSED = 1"
| "status_num PTH_SECOND_PRESSED = 2"
| "status_num PTH_DECIDED_TAP = 3"
| "status_num PTH_DECIDED_HOLD = 4"

datatype keyevent_type_t =
  TICK_EVENT | KEY_EVENT | ENCODER_CW_EVENT | ENCODER_CCW_EVENT | COMBO_EVENT
  | DIP_SWITCH_ON_EVENT | DIP_SWITCH_OFF_EVENT

record keypos_t =
  col :: uint8_t
  row :: uint8_t

text \<open>
  \<^verbatim>\<open>keyrecord_t\<close>, flattened. The field \<^verbatim>\<open>event.time\<close> is left out: the module never
  reads it (it calls \<^verbatim>\<open>timer_read()\<close> instead) and overwrites it with a fresh reading
  on every record it sends. The reserved bits of \<^verbatim>\<open>tap_t\<close> and the conditional
  \<^verbatim>\<open>keycode\<close> field are never accessed either.
\<close>

record keyrecord_t =
  key :: keypos_t
  pressed :: bool
  ev_type :: keyevent_type_t
  tap_interrupted :: bool
  tap_count :: "4 word"

text \<open>What the module sends downstream, in order.\<close>

datatype action =
  Process_record keyrecord_t
  | Tap_code16 uint16_t
  | Register_code16 uint16_t
  | Unregister_code16 uint16_t
  | Send_and_wait

text \<open>
  The static variables. The two \<^verbatim>\<open>float\<close> averages \<^verbatim>\<open>pth_press_to_press_w_avg\<close> and
  \<^verbatim>\<open>pth_overlap_w_avg\<close> are not fields: they are \<^verbatim>\<open>weighted_avg\<close> of two stored
  durations and only the predictors read them.
\<close>

record pth_state =
  pth_status :: pth_status_t
  pth_prev_status :: pth_status_t
  pth_keycode :: uint16_t
  pth_tap_code_instead_of_hold :: uint16_t
  pth_record :: keyrecord_t
  pth_press_timer :: uint16_t
  pth_press_timer_max_reached :: bool
  pth_atomic_side :: uint8_t
  pth_side_user_bits :: uint8_t
  pth_was_held_instantly :: bool
  second_was_held_instantly :: bool
  instant_layer_was_active :: bool
  layer_before_instant_layer_tap :: uint8_t
  has_second :: bool
  second_record :: keyrecord_t
  second_keycode :: uint16_t
  second_press_timer :: uint16_t
  second_press_timer_max_reached :: bool
  second_is_tap_hold :: bool
  second_is_same_side_as_pth :: bool
  second_to_be_released :: bool
  timeout_for_forcing_choice :: int16_t
  has_chosen_after_timeout_reached :: bool
  min_overlap_dur_for_hold :: uint16_t
  pth_press_to_second_press_dur :: uint16_t
  pth_press_to_second_release_dur :: uint16_t
  pth_second_dur :: uint16_t
  pth_second_press_to_third_press_dur :: uint16_t
  pth_prev_prev_press_to_prev_press_dur :: int16_t
  pth_prev_press_to_pth_press_dur :: int16_t
  pth_prev_prev_overlap_dur :: int16_t
  pth_prev_overlap_dur :: int16_t
  key_release_before_pth_to_pth_press_dur :: uint16_t
  prev_press_keycode :: uint16_t
  cur_press_keycode :: uint16_t
  down_count :: uint8_t
  overlap_timer :: uint16_t
  overlap_timer_max_reached :: bool
  press_to_press_timer :: uint16_t
  press_to_press_timer_max_reached :: bool
  release_timer :: uint16_t
  release_timer_max_reached :: bool
  prev_press_to_press_dur :: int16_t
  cur_press_to_press_dur :: int16_t
  prev_overlap_dur :: int16_t
  cur_overlap_dur :: int16_t
  release_as_tap_positions :: "keypos_t list"
  used_release_as_tap_positions_bitmask :: uint8_t
  release_records :: "keyrecord_t list"
  is_before_second_bitmask :: uint8_t
  used_release_records_bitmask :: uint8_t
  is_processing_record_due_to_pth :: bool
  out :: "action list"

text \<open>The compile-time switches of the module.\<close>

record config =
  TAPPING_TERM_PER_KEY :: bool
  TAP_DANCE_ENABLE :: bool
  COMBO_ENABLE :: bool
  CAPS_WORD_ENABLE :: bool
  NO_ACTION_ONESHOT :: bool
  PTH_RESET_IMMEDIATELY_WHEN_TAP_CHOSEN :: bool
  PTH_FAST_STREAK_TAP_ENABLE :: bool
  PTH_FAST_STREAK_TAP_RESET_IMMEDIATELY :: bool

text \<open>
  The firmware services the module queries. Their answers may depend on what has been
  sent downstream so far, hence the state argument.
\<close>

record qmk_env =
  get_tapping_term :: "pth_state \<Rightarrow> uint16_t \<Rightarrow> keyrecord_t \<Rightarrow> uint16_t"
  get_mods :: "pth_state \<Rightarrow> uint8_t"
  get_oneshot_mods :: "pth_state \<Rightarrow> uint8_t"
  is_caps_word_on :: "pth_state \<Rightarrow> bool"
  mod_config :: "uint8_t \<Rightarrow> uint8_t"
  get_tap_keycode :: "uint16_t \<Rightarrow> uint16_t"
  layer_switch_get_layer :: "pth_state \<Rightarrow> keypos_t \<Rightarrow> uint8_t"
  keycode_at_keymap_location :: "uint8_t \<Rightarrow> uint8_t \<Rightarrow> uint8_t \<Rightarrow> uint16_t"
  pth_side_layout :: "uint8_t \<Rightarrow> uint8_t \<Rightarrow> uint8_t"

text \<open>
  The weakly defined functions, which a keymap may replace. A replacement can only
  observe the module through its accessors, so each is a function of the state.
\<close>

record hooks =
  hk_get_side :: "pth_state \<Rightarrow> keyrecord_t \<Rightarrow> uint8_t"
  hk_predict_fast_streak_tap :: "pth_state \<Rightarrow> bool"
  hk_should_hold_instantly :: "pth_state \<Rightarrow> uint16_t \<Rightarrow> keyrecord_t \<Rightarrow> bool"
  hk_second_should_hold_instantly :: "pth_state \<Rightarrow> uint16_t \<Rightarrow> keyrecord_t \<Rightarrow> bool"
  hk_should_choose_tap_when_second_is_same_side_press :: "pth_state \<Rightarrow> bool"
  hk_should_choose_tap_when_second_is_same_side_release :: "pth_state \<Rightarrow> bool"
  hk_get_timeout_for_forcing_choice :: "pth_state \<Rightarrow> int16_t"
  hk_get_forced_choice_after_timeout :: "pth_state \<Rightarrow> pth_status_t"
  hk_should_neutralize_mods :: "pth_state \<Rightarrow> uint8_t \<Rightarrow> bool"
  hk_get_code_to_be_registered_instead_when_hold_chosen :: "pth_state \<Rightarrow> uint16_t"
  hk_should_register_as_hold_when_same_side :: "pth_state \<Rightarrow> uint16_t \<Rightarrow> keyrecord_t \<Rightarrow> bool"
  hk_predict_hold_when_third_press :: "pth_state \<Rightarrow> bool"
  hk_predict_hold_when_pth_release_after_second_press :: "pth_state \<Rightarrow> bool"
  hk_predict_hold_when_pth_release_after_second_release :: "pth_state \<Rightarrow> bool"
  hk_predict_min_overlap_for_hold_in_ms :: "pth_state \<Rightarrow> uint16_t"

subsection \<open>Constants\<close>

text \<open>From \<^verbatim>\<open>predictive_tap_hold.h\<close> and \<^verbatim>\<open>predictive_tap_hold.c\<close>.\<close>

definition PTH_MS_MAX_OVERLAP :: int where "PTH_MS_MAX_OVERLAP = 232"
definition PTH_MS_MIN_OVERLAP :: int where "PTH_MS_MIN_OVERLAP = 39"
definition MS_MAX_DUR_FOR_TIMERS :: uint16_t where "MS_MAX_DUR_FOR_TIMERS = 4096"
definition PTH_ATOM_LEFT :: uint8_t where "PTH_ATOM_LEFT = 0"
definition PTH_ATOM_RIGHT :: uint8_t where "PTH_ATOM_RIGHT = 1"
definition PTH_ATOM_OPPOSITE :: uint8_t where "PTH_ATOM_OPPOSITE = 2"
definition PTH_ATOM_SAME :: uint8_t where "PTH_ATOM_SAME = 3"
definition EMPTY_KEYPOS :: keypos_t where "EMPTY_KEYPOS = \<lparr>col = 0xFF, row = 0xFF\<rparr>"
definition MODS_5_BIT_RL_BIT :: uint8_t where "MODS_5_BIT_RL_BIT = 0x10"

text \<open>Keycodes, keycode ranges and modifier masks of the QMK firmware the module is built against.\<close>

definition KC_NO :: uint16_t where "KC_NO = 0"
definition KC_A :: uint16_t where "KC_A = 0x04"
definition KC_Z :: uint16_t where "KC_Z = 0x1D"
definition KC_SPC :: uint16_t where "KC_SPC = 0x2C"
definition KC_SCLN :: uint16_t where "KC_SCLN = 0x33"
definition KC_COMM :: uint16_t where "KC_COMM = 0x36"
definition KC_DOT :: uint16_t where "KC_DOT = 0x37"
definition KC_SLSH :: uint16_t where "KC_SLSH = 0x38"
definition KC_F23 :: uint16_t where "KC_F23 = 0x72"
definition PTH_INSTANT_MOD_TAP_SUPPRESSION_KEY :: uint16_t where
  "PTH_INSTANT_MOD_TAP_SUPPRESSION_KEY = KC_F23"
definition QK_MOD_TAP :: uint16_t where "QK_MOD_TAP = 0x2000"
definition QK_MOD_TAP_MAX :: uint16_t where "QK_MOD_TAP_MAX = 0x3FFF"
definition QK_LAYER_TAP :: uint16_t where "QK_LAYER_TAP = 0x4000"
definition QK_LAYER_TAP_MAX :: uint16_t where "QK_LAYER_TAP_MAX = 0x4FFF"
definition QK_SWAP_HANDS :: uint16_t where "QK_SWAP_HANDS = 0x5600"
definition QK_SWAP_HANDS_MAX :: uint16_t where "QK_SWAP_HANDS_MAX = 0x56FF"
definition QK_SWAP_HANDS_TOGGLE :: uint16_t where "QK_SWAP_HANDS_TOGGLE = 0x56F0"
definition QK_SWAP_HANDS_ONE_SHOT :: uint16_t where "QK_SWAP_HANDS_ONE_SHOT = 0x56F6"
definition QK_TAP_DANCE :: uint16_t where "QK_TAP_DANCE = 0x5700"
definition QK_TAP_DANCE_MAX :: uint16_t where "QK_TAP_DANCE_MAX = 0x57FF"
definition MOD_LCTL :: uint8_t where "MOD_LCTL = 0x01"
definition MOD_LSFT :: uint8_t where "MOD_LSFT = 0x02"
definition MOD_BIT_LALT :: uint8_t where "MOD_BIT_LALT = 0x04"
definition MOD_BIT_RALT :: uint8_t where "MOD_BIT_RALT = 0x40"
definition MOD_MASK_SHIFT :: uint8_t where "MOD_MASK_SHIFT = 0x22"
definition MOD_MASK_GUI :: uint8_t where "MOD_MASK_GUI = 0x88"
definition MOD_MASK_CG :: uint8_t where "MOD_MASK_CG = 0x99"

definition IS_QK_MOD_TAP :: "uint16_t \<Rightarrow> bool" where
  "IS_QK_MOD_TAP code \<longleftrightarrow> QK_MOD_TAP \<le> code \<and> code \<le> QK_MOD_TAP_MAX"

definition IS_QK_LAYER_TAP :: "uint16_t \<Rightarrow> bool" where
  "IS_QK_LAYER_TAP code \<longleftrightarrow> QK_LAYER_TAP \<le> code \<and> code \<le> QK_LAYER_TAP_MAX"

definition IS_QK_SWAP_HANDS :: "uint16_t \<Rightarrow> bool" where
  "IS_QK_SWAP_HANDS code \<longleftrightarrow> QK_SWAP_HANDS \<le> code \<and> code \<le> QK_SWAP_HANDS_MAX"

definition IS_QK_TAP_DANCE :: "uint16_t \<Rightarrow> bool" where
  "IS_QK_TAP_DANCE code \<longleftrightarrow> QK_TAP_DANCE \<le> code \<and> code \<le> QK_TAP_DANCE_MAX"

definition IS_SWAP_HANDS_KEYCODE :: "uint16_t \<Rightarrow> bool" where
  "IS_SWAP_HANDS_KEYCODE code \<longleftrightarrow> QK_SWAP_HANDS_TOGGLE \<le> code \<and> code \<le> QK_SWAP_HANDS_ONE_SHOT"

definition QK_MOD_TAP_GET_MODS :: "uint16_t \<Rightarrow> uint8_t" where
  "QK_MOD_TAP_GET_MODS kc = ucast (drop_bit 8 kc AND 0x1F)"

definition QK_LAYER_TAP_GET_LAYER :: "uint16_t \<Rightarrow> uint8_t" where
  "QK_LAYER_TAP_GET_LAYER kc = ucast (drop_bit 8 kc AND 0xF)"

definition IS_KEYEVENT :: "keyrecord_t \<Rightarrow> bool" where
  "IS_KEYEVENT r \<longleftrightarrow> ev_type r = KEY_EVENT"

definition IS_COMBOEVENT :: "keyrecord_t \<Rightarrow> bool" where
  "IS_COMBOEVENT r \<longleftrightarrow> ev_type r = COMBO_EVENT"

definition TIMER_DIFF_16 :: "uint16_t \<Rightarrow> uint16_t \<Rightarrow> uint16_t" where
  "TIMER_DIFF_16 a b = a - b"

definition PTH_GET_PTH_ATOM_SIDE :: "uint8_t \<Rightarrow> uint8_t" where
  "PTH_GET_PTH_ATOM_SIDE encoded_val = drop_bit 2 encoded_val AND 3"

definition PTH_GET_OTHER_ATOM_SIDE :: "uint8_t \<Rightarrow> uint8_t" where
  "PTH_GET_OTHER_ATOM_SIDE encoded_val = encoded_val AND 3"

definition PTH_GET_USER_BITS :: "uint8_t \<Rightarrow> uint8_t" where
  "PTH_GET_USER_BITS encoded_val = encoded_val AND 0xF0"

definition keypos_eq :: "keypos_t \<Rightarrow> keypos_t \<Rightarrow> bool" where
  "keypos_eq p1 p2 \<longleftrightarrow> col p1 = col p2 \<and> row p1 = row p2"

subsection \<open>The initial state\<close>

text \<open>The static initialisers; arrays without one are zero-filled.\<close>

definition zero_keypos :: keypos_t where
  "zero_keypos = \<lparr>col = 0, row = 0\<rparr>"

definition zero_record :: keyrecord_t where
  "zero_record = \<lparr>key = zero_keypos, pressed = False, ev_type = TICK_EVENT,
     tap_interrupted = False, tap_count = 0\<rparr>"

definition init_state :: pth_state where
  "init_state = \<lparr>
     pth_status = PTH_IDLE,
     pth_prev_status = PTH_IDLE,
     pth_keycode = KC_NO,
     pth_tap_code_instead_of_hold = KC_NO,
     pth_record = zero_record\<lparr>key := EMPTY_KEYPOS\<rparr>,
     pth_press_timer = 0,
     pth_press_timer_max_reached = False,
     pth_atomic_side = 0,
     pth_side_user_bits = 0,
     pth_was_held_instantly = False,
     second_was_held_instantly = False,
     instant_layer_was_active = False,
     layer_before_instant_layer_tap = 0,
     has_second = False,
     second_record = zero_record\<lparr>key := EMPTY_KEYPOS\<rparr>,
     second_keycode = KC_NO,
     second_press_timer = 0,
     second_press_timer_max_reached = False,
     second_is_tap_hold = False,
     second_is_same_side_as_pth = False,
     second_to_be_released = False,
     timeout_for_forcing_choice = 0,
     has_chosen_after_timeout_reached = False,
     min_overlap_dur_for_hold = 0,
     pth_press_to_second_press_dur = 0,
     pth_press_to_second_release_dur = 0,
     pth_second_dur = 0,
     pth_second_press_to_third_press_dur = 0,
     pth_prev_prev_press_to_prev_press_dur = - 1,
     pth_prev_press_to_pth_press_dur = - 1,
     pth_prev_prev_overlap_dur = - 1,
     pth_prev_overlap_dur = - 1,
     key_release_before_pth_to_pth_press_dur = 0,
     prev_press_keycode = KC_NO,
     cur_press_keycode = KC_NO,
     down_count = 0,
     overlap_timer = 0,
     overlap_timer_max_reached = False,
     press_to_press_timer = 0,
     press_to_press_timer_max_reached = False,
     release_timer = 0,
     release_timer_max_reached = False,
     prev_press_to_press_dur = - 1,
     cur_press_to_press_dur = - 1,
     prev_overlap_dur = - 1,
     cur_overlap_dur = - 1,
     release_as_tap_positions = replicate 8 zero_keypos,
     used_release_as_tap_positions_bitmask = 0,
     release_records = replicate 8 zero_record,
     is_before_second_bitmask = 0,
     used_release_records_bitmask = 0,
     is_processing_record_due_to_pth = False,
     out = []\<rparr>"

definition reset_pth_state :: "pth_state \<Rightarrow> pth_state" where
  "reset_pth_state s = s\<lparr>
     pth_prev_status := pth_status s,
     pth_status := PTH_IDLE,
     pth_keycode := KC_NO,
     pth_tap_code_instead_of_hold := KC_NO,
     pth_record := (pth_record s)\<lparr>key := EMPTY_KEYPOS\<rparr>,
     pth_press_timer_max_reached := False,
     pth_was_held_instantly := False,
     second_was_held_instantly := False,
     instant_layer_was_active := False,
     layer_before_instant_layer_tap := 0,
     has_second := False,
     second_record := (second_record s)\<lparr>key := EMPTY_KEYPOS\<rparr>,
     second_keycode := KC_NO,
     second_press_timer_max_reached := False,
     second_is_tap_hold := False,
     second_to_be_released := False,
     has_chosen_after_timeout_reached := False,
     min_overlap_dur_for_hold := 0\<rparr>"

text \<open>\<^verbatim>\<open>keyboard_post_init_predictive_tap_hold\<close>, with the reading of \<^verbatim>\<open>timer_read()\<close>.\<close>

definition keyboard_post_init_predictive_tap_hold :: "uint16_t \<Rightarrow> pth_state \<Rightarrow> pth_state" where
  "keyboard_post_init_predictive_tap_hold now s = s\<lparr>
     press_to_press_timer := now - MS_MAX_DUR_FOR_TIMERS,
     release_timer := now - (MS_MAX_DUR_FOR_TIMERS - 100)\<rparr>"

definition get_keycode_same_pos_in_layer :: "qmk_env \<Rightarrow> keyrecord_t \<Rightarrow> uint8_t \<Rightarrow> uint16_t" where
  "get_keycode_same_pos_in_layer e record layer =
     (let pos = key record in keycode_at_keymap_location e layer (row pos) (col pos))"

subsection \<open>Utility functions\<close>

definition convert_5_bit_mods_to_8_bit :: "uint8_t \<Rightarrow> uint8_t" where
  "convert_5_bit_mods_to_8_bit mods_5_bit =
     (if mods_5_bit AND MODS_5_BIT_RL_BIT = 0 then mods_5_bit
      else push_bit 4 (mods_5_bit AND NOT MODS_5_BIT_RL_BIT))"

definition get_5_bit_mods_of_mod_tap :: "qmk_env \<Rightarrow> uint16_t \<Rightarrow> uint8_t" where
  "get_5_bit_mods_of_mod_tap e keycode = mod_config e (QK_MOD_TAP_GET_MODS keycode)"

definition change_bit :: "uint8_t \<Rightarrow> nat \<Rightarrow> bool \<Rightarrow> uint8_t" where
  "change_bit bitmask index is_set =
     (bitmask AND NOT (push_bit index 1)) OR push_bit index (of_bool is_set)"

definition clear_bit :: "uint8_t \<Rightarrow> nat \<Rightarrow> uint8_t" where
  "clear_bit bitmask index = bitmask AND NOT (push_bit index 1)"

definition set_bit_u8 :: "uint8_t \<Rightarrow> nat \<Rightarrow> uint8_t" where
  "set_bit_u8 bitmask index = bitmask OR push_bit index 1"

text \<open>
  \<^verbatim>\<open>__builtin_ctz\<close> on a value that fits eight bits: the index of the lowest set bit.
  C leaves the result for 0 undefined; the model calls it on non-zero masks only, and
  \<open>add_release_record\<close> below makes the one call on 0 an explicit error.
\<close>

fun ctz_from :: "nat \<Rightarrow> nat \<Rightarrow> uint8_t \<Rightarrow> nat" where
  "ctz_from 0 i w = i"
| "ctz_from (Suc k) i w = (if bit w i then i else ctz_from k (Suc i) w)"

definition builtin_ctz :: "uint8_t \<Rightarrow> nat" where
  "builtin_ctz w = ctz_from 8 0 w"

text \<open>
  \<^verbatim>\<open>is_same_side_as_pth\<close>: the 16-entry truth table, indexed by the PTH atom (from the
  state) and the other key's atom.
\<close>

definition truth_table :: uint16_t where
  "truth_table = 0b1011100010101001"

definition is_same_side_as_pth :: "pth_state \<Rightarrow> uint8_t \<Rightarrow> bool" where
  "is_same_side_as_pth s other_atomic_side =
     (let index = push_bit 2 (pth_atomic_side s) OR other_atomic_side
      in drop_bit (unat index) truth_table AND 1 \<noteq> 0)"

definition is_record_same_side_as_pth :: "hooks \<Rightarrow> pth_state \<Rightarrow> keyrecord_t \<Rightarrow> bool" where
  "is_record_same_side_as_pth h s record =
     (let other_side = PTH_GET_OTHER_ATOM_SIDE (hk_get_side h s record)
      in is_same_side_as_pth s other_side)"

definition pth_is_tap_hold_keycode :: "uint16_t \<Rightarrow> bool" where
  "pth_is_tap_hold_keycode keycode =
     (if IS_QK_MOD_TAP keycode \<or> IS_QK_LAYER_TAP keycode then True
      else if IS_QK_SWAP_HANDS keycode then \<not> IS_SWAP_HANDS_KEYCODE keycode
      else False)"


subsection \<open>Public helpers and the default weak functions\<close>

definition pth_get_all_8_bit_mods :: "config \<Rightarrow> qmk_env \<Rightarrow> pth_state \<Rightarrow> uint8_t" where
  "pth_get_all_8_bit_mods c e s =
     (if NO_ACTION_ONESHOT c then get_mods e s else get_mods e s OR get_oneshot_mods e s)"

definition pth_get_8_bit_mods_of_mod_tap :: "qmk_env \<Rightarrow> uint16_t \<Rightarrow> uint8_t" where
  "pth_get_8_bit_mods_of_mod_tap e keycode =
     convert_5_bit_mods_to_8_bit (get_5_bit_mods_of_mod_tap e keycode)"

definition pth_is_mod_tap_with_any_mods_of :: "qmk_env \<Rightarrow> uint16_t \<Rightarrow> uint8_t \<Rightarrow> bool" where
  "pth_is_mod_tap_with_any_mods_of e keycode mods_8_bit \<longleftrightarrow>
     IS_QK_MOD_TAP keycode \<and> pth_get_8_bit_mods_of_mod_tap e keycode AND mods_8_bit \<noteq> 0"

definition pth_default_should_hold_instantly ::
  "config \<Rightarrow> qmk_env \<Rightarrow> pth_state \<Rightarrow> uint16_t \<Rightarrow> keyrecord_t \<Rightarrow> bool" where
  "pth_default_should_hold_instantly c e s keycode record =
     (if CAPS_WORD_ENABLE c \<and> is_caps_word_on e s then False
      else
        let active_mods_or_gui = pth_get_all_8_bit_mods c e s OR MOD_MASK_GUI
        in if pth_is_mod_tap_with_any_mods_of e keycode active_mods_or_gui then False else True)"

definition pth_get_side_from_layout :: "qmk_env \<Rightarrow> keypos_t \<Rightarrow> uint8_t" where
  "pth_get_side_from_layout e pos = pth_side_layout e (row pos) (col pos)"

definition pth_get_side :: "qmk_env \<Rightarrow> pth_state \<Rightarrow> keyrecord_t \<Rightarrow> uint8_t" where
  "pth_get_side e s record = pth_get_side_from_layout e (key record)"

definition pth_is_fast_streak_tap_key :: "qmk_env \<Rightarrow> pth_state \<Rightarrow> uint16_t \<Rightarrow> bool" where
  "pth_is_fast_streak_tap_key e s keycode =
     (if get_mods e s AND (MOD_MASK_CG OR MOD_BIT_LALT) \<noteq> 0 then False
      else
        let tk = get_tap_keycode e keycode
        in if (KC_A \<le> tk \<and> tk \<le> KC_Z) \<or> tk = KC_SPC \<or> tk = KC_DOT \<or> tk = KC_COMM
              \<or> tk = KC_SCLN \<or> tk = KC_SLSH
           then True else False)"

definition pth_predict_fast_streak_tap :: "qmk_env \<Rightarrow> pth_state \<Rightarrow> bool" where
  "pth_predict_fast_streak_tap e s \<longleftrightarrow>
     pth_is_fast_streak_tap_key e s (pth_keycode s)
     \<and> pth_is_fast_streak_tap_key e s (prev_press_keycode s)
     \<and> pth_prev_status s \<noteq> PTH_DECIDED_HOLD
     \<and> sint (pth_prev_press_to_pth_press_dur s) < 125"

definition pth_should_choose_tap_when_second_is_same_side_press :: "pth_state \<Rightarrow> bool" where
  "pth_should_choose_tap_when_second_is_same_side_press s \<longleftrightarrow> \<not> second_is_tap_hold s"

definition pth_should_choose_tap_when_second_is_same_side_release :: "pth_state \<Rightarrow> bool" where
  "pth_should_choose_tap_when_second_is_same_side_release s \<longleftrightarrow> True"

definition pth_get_timeout_for_forcing_choice :: "pth_state \<Rightarrow> int16_t" where
  "pth_get_timeout_for_forcing_choice s = 700"

definition pth_get_forced_choice_after_timeout :: "pth_state \<Rightarrow> pth_status_t" where
  "pth_get_forced_choice_after_timeout s = (if has_second s then PTH_IDLE else PTH_DECIDED_HOLD)"

definition pth_should_neutralize_mods :: "pth_state \<Rightarrow> uint8_t \<Rightarrow> bool" where
  "pth_should_neutralize_mods s mod_5_bit \<longleftrightarrow> mod_5_bit AND (MOD_LCTL OR MOD_LSFT) = 0"

definition pth_get_code_to_be_registered_instead_when_hold_chosen :: "pth_state \<Rightarrow> uint16_t" where
  "pth_get_code_to_be_registered_instead_when_hold_chosen s = KC_NO"

definition pth_should_register_as_hold_when_same_side ::
  "pth_state \<Rightarrow> uint16_t \<Rightarrow> keyrecord_t \<Rightarrow> bool" where
  "pth_should_register_as_hold_when_same_side s keycode record \<longleftrightarrow> True"

text \<open>
  The hooks as the module ships them. The four predictors compute with \<^verbatim>\<open>float\<close>
  decision trees and stay parameters: they are taken from \<open>p\<close>.
\<close>

definition default_hooks :: "config \<Rightarrow> qmk_env \<Rightarrow> hooks \<Rightarrow> hooks" where
  "default_hooks c e p = p\<lparr>
     hk_get_side := pth_get_side e,
     hk_predict_fast_streak_tap := pth_predict_fast_streak_tap e,
     hk_should_hold_instantly := pth_default_should_hold_instantly c e,
     hk_second_should_hold_instantly := pth_default_should_hold_instantly c e,
     hk_should_choose_tap_when_second_is_same_side_press :=
       pth_should_choose_tap_when_second_is_same_side_press,
     hk_should_choose_tap_when_second_is_same_side_release :=
       pth_should_choose_tap_when_second_is_same_side_release,
     hk_get_timeout_for_forcing_choice := pth_get_timeout_for_forcing_choice,
     hk_get_forced_choice_after_timeout := pth_get_forced_choice_after_timeout,
     hk_should_neutralize_mods := pth_should_neutralize_mods,
     hk_get_code_to_be_registered_instead_when_hold_chosen :=
       pth_get_code_to_be_registered_instead_when_hold_chosen,
     hk_should_register_as_hold_when_same_side := pth_should_register_as_hold_when_same_side\<rparr>"

subsection \<open>Key handling\<close>

definition emit :: "action \<Rightarrow> pth_state \<Rightarrow> pth_state" where
  "emit a s = s\<lparr>out := out s @ [a]\<rparr>"

text \<open>
  \<^verbatim>\<open>process_record_with_new_time\<close>: the record goes to \<^verbatim>\<open>process_record\<close> while the
  recursion guard is set. The dispatcher that \<^verbatim>\<open>process_record\<close> re-enters returns at
  its first test when the guard is set, so the nested call leaves the state alone.
\<close>

definition process_record_with_new_time :: "keyrecord_t \<Rightarrow> pth_state \<Rightarrow> pth_state" where
  "process_record_with_new_time record s =
     (let s = s\<lparr>is_processing_record_due_to_pth := True\<rparr>;
          s = emit (Process_record record) s
      in s\<lparr>is_processing_record_due_to_pth := False\<rparr>)"

text \<open>
  The functions below take a \<^verbatim>\<open>keyrecord_t*\<close>; the model takes the record and returns
  it as written, together with the state.
\<close>

definition process_register_record :: "keyrecord_t \<Rightarrow> pth_state \<Rightarrow> keyrecord_t \<times> pth_state" where
  "process_register_record record s =
     (let record = record\<lparr>pressed := True\<rparr> in (record, process_record_with_new_time record s))"

definition process_unregister_record :: "keyrecord_t \<Rightarrow> pth_state \<Rightarrow> keyrecord_t \<times> pth_state" where
  "process_unregister_record record s =
     (let record = record\<lparr>pressed := False\<rparr> in (record, process_record_with_new_time record s))"

definition set_record_to_tap :: "keyrecord_t \<Rightarrow> keyrecord_t" where
  "set_record_to_tap record = record\<lparr>tap_interrupted := True, tap_count := 1\<rparr>"

definition set_record_to_hold :: "keyrecord_t \<Rightarrow> keyrecord_t" where
  "set_record_to_hold record = record\<lparr>tap_count := 0\<rparr>"

definition process_register_record_as_hold ::
  "keyrecord_t \<Rightarrow> pth_state \<Rightarrow> keyrecord_t \<times> pth_state" where
  "process_register_record_as_hold record s =
     (let record = set_record_to_hold record; record = record\<lparr>pressed := True\<rparr>
      in (record, process_record_with_new_time record s))"

definition process_unregister_record_as_hold ::
  "keyrecord_t \<Rightarrow> pth_state \<Rightarrow> keyrecord_t \<times> pth_state" where
  "process_unregister_record_as_hold record s =
     (let record = set_record_to_hold record; record = record\<lparr>pressed := False\<rparr>
      in (record, process_record_with_new_time record s))"

definition process_register_record_as_tap ::
  "keyrecord_t \<Rightarrow> pth_state \<Rightarrow> keyrecord_t \<times> pth_state" where
  "process_register_record_as_tap record s =
     (let record = set_record_to_tap record; record = record\<lparr>pressed := True\<rparr>
      in (record, process_record_with_new_time record s))"

definition process_unregister_record_as_tap ::
  "keyrecord_t \<Rightarrow> pth_state \<Rightarrow> keyrecord_t \<times> pth_state" where
  "process_unregister_record_as_tap record s =
     (let record = set_record_to_tap record; record = record\<lparr>pressed := False\<rparr>
      in (record, process_record_with_new_time record s))"

text \<open>A call on \<^verbatim>\<open>&pth_record\<close> or \<^verbatim>\<open>&second_record\<close>: the written record is stored back.\<close>

definition on_pth_record ::
  "(keyrecord_t \<Rightarrow> pth_state \<Rightarrow> keyrecord_t \<times> pth_state) \<Rightarrow> pth_state \<Rightarrow> pth_state" where
  "on_pth_record f s = (case f (pth_record s) s of (r, s') \<Rightarrow> s'\<lparr>pth_record := r\<rparr>)"

definition on_second_record ::
  "(keyrecord_t \<Rightarrow> pth_state \<Rightarrow> keyrecord_t \<times> pth_state) \<Rightarrow> pth_state \<Rightarrow> pth_state" where
  "on_second_record f s = (case f (second_record s) s of (r, s') \<Rightarrow> s'\<lparr>second_record := r\<rparr>)"

definition register_pth_hold :: "qmk_env \<Rightarrow> pth_state \<Rightarrow> pth_state" where
  "register_pth_hold e s =
     (if pth_tap_code_instead_of_hold s = KC_NO then
        let s = on_pth_record process_register_record_as_hold s
        in if has_second s \<and> \<not> second_was_held_instantly s \<and> IS_QK_LAYER_TAP (pth_keycode s)
           then
             let s = s\<lparr>second_keycode := get_keycode_same_pos_in_layer e (second_record s)
                                          (QK_LAYER_TAP_GET_LAYER (pth_keycode s))\<rparr>
             in s\<lparr>second_is_tap_hold := pth_is_tap_hold_keycode (second_keycode s)\<rparr>
           else s
      else emit (Register_code16 (pth_tap_code_instead_of_hold s)) s)"

definition unregister_pth_hold :: "pth_state \<Rightarrow> pth_state" where
  "unregister_pth_hold s =
     (if pth_tap_code_instead_of_hold s = KC_NO
      then on_pth_record process_unregister_record_as_hold s
      else emit (Unregister_code16 (pth_tap_code_instead_of_hold s)) s)"

definition send_and_wait :: "pth_state \<Rightarrow> pth_state" where
  "send_and_wait s = emit Send_and_wait s"

definition tap_code16 :: "uint16_t \<Rightarrow> pth_state \<Rightarrow> pth_state" where
  "tap_code16 code s = emit (Tap_code16 code) s"


subsection \<open>Tap-hold releases that have to be taps\<close>

text \<open>
  The loop of \<^verbatim>\<open>remove_pos_from_tap_releases\<close>: \<open>to_check_bitmask\<close> loses its lowest set
  bit on every round.
\<close>

function remove_pos_loop :: "keypos_t \<Rightarrow> uint8_t \<Rightarrow> pth_state \<Rightarrow> bool \<times> pth_state" where
  "remove_pos_loop pos to_check_bitmask s =
     (if to_check_bitmask \<noteq> 0 then
        let lsb_set_index = builtin_ctz to_check_bitmask
        in if keypos_eq (release_as_tap_positions s ! lsb_set_index) pos
           then (True, s\<lparr>used_release_as_tap_positions_bitmask :=
                          clear_bit (used_release_as_tap_positions_bitmask s) lsb_set_index\<rparr>)
           else remove_pos_loop pos (clear_bit to_check_bitmask lsb_set_index) s
      else (False, s))"
  by pat_completeness auto
termination
proof (relation "measure (\<lambda>(pos, w, s). unat w)")
  show "wf (measure (\<lambda>(pos, w, s). unat w))" by simp
next
  fix pos :: keypos_t and w :: uint8_t and s :: pth_state and i :: nat
  assume nz: "w \<noteq> 0" and i: "i = builtin_ctz w"
  have step: "bit v (ctz_from k j v) \<and> ctz_from k j v < j + k"
    if "\<exists>n. j \<le> n \<and> n < j + k \<and> bit v n" for k j and v :: uint8_t
    using that
  proof (induction k arbitrary: j)
    case 0
    then show ?case by auto
  next
    case (Suc k)
    show ?case
    proof (cases "bit v j")
      case True
      then show ?thesis by simp
    next
      case False
      from Suc.prems obtain n where n: "j \<le> n" "n < j + Suc k" "bit v n" by blast
      with False have "j \<noteq> n" by auto
      with n have "\<exists>n. Suc j \<le> n \<and> n < Suc j + k \<and> bit v n" by (intro exI[of _ n]) auto
      from Suc.IH[OF this] False show ?thesis by simp
    qed
  qed
  from nz obtain n where n: "bit w n" by (auto simp: bit_eq_iff)
  then have "n < 8" using bit_imp_le_length[of w n] by simp
  with n have "\<exists>n. 0 \<le> n \<and> n < 0 + 8 \<and> bit w n" by auto
  from step[OF this] have b: "bit w i" by (simp add: i builtin_ctz_def)
  have le: "clear_bit w i \<le> w" unfolding clear_bit_def by (rule word_and_le2)
  have "\<not> bit (clear_bit w i) i"
    by (auto simp add: clear_bit_def bit_and_iff bit_not_iff bit_push_bit_iff bit_exp_iff bit_1_iff
          dest: bit_imp_le_length)
  with b have "clear_bit w i \<noteq> w" by auto
  with le have "clear_bit w i < w" by simp
  then show "((pos, clear_bit w i, s), (pos, w, s)) \<in> measure (\<lambda>(pos, w, s). unat w)"
    by (simp add: word_less_nat_alt)
qed

declare remove_pos_loop.simps [simp del]

definition remove_pos_from_tap_releases :: "keypos_t \<Rightarrow> pth_state \<Rightarrow> bool \<times> pth_state" where
  "remove_pos_from_tap_releases pos s =
     remove_pos_loop pos (used_release_as_tap_positions_bitmask s) s"

definition add_pos_to_tap_releases :: "keypos_t \<Rightarrow> pth_state \<Rightarrow> pth_state" where
  "add_pos_to_tap_releases pos s =
     (let empty_release_as_tap_positions_bitmask = NOT (used_release_as_tap_positions_bitmask s)
      in if empty_release_as_tap_positions_bitmask = 0 then s
         else
           let lsb_set_index = builtin_ctz empty_release_as_tap_positions_bitmask
           in s\<lparr>release_as_tap_positions := (release_as_tap_positions s)[lsb_set_index := pos],
                used_release_as_tap_positions_bitmask :=
                  set_bit_u8 (used_release_as_tap_positions_bitmask s) lsb_set_index\<rparr>)"

subsection \<open>The release cache\<close>

datatype release_time_t = AFTER_SECOND | BEFORE_SECOND

definition get_to_be_released_bitmask :: "release_time_t \<Rightarrow> pth_state \<Rightarrow> uint8_t" where
  "get_to_be_released_bitmask release_time s =
     (let is_before_second = (release_time = BEFORE_SECOND);
          same_release_time_bitmask =
            is_before_second_bitmask s XOR NOT (- of_bool is_before_second)
      in used_release_records_bitmask s AND same_release_time_bitmask)"

function release_loop :: "uint8_t \<Rightarrow> bool \<Rightarrow> pth_state \<Rightarrow> bool \<times> pth_state" where
  "release_loop to_be_released_bitmask waited s =
     (if to_be_released_bitmask \<noteq> 0 then
        let lsb_set_index = builtin_ctz to_be_released_bitmask;
            s = (if \<not> waited then send_and_wait s else s);
            waited = True;
            s = process_record_with_new_time (release_records s ! lsb_set_index) s
        in release_loop (clear_bit to_be_released_bitmask lsb_set_index) waited s
      else (waited, s))"
  by pat_completeness auto
termination
proof (relation "measure (\<lambda>(w, b, s). unat w)")
  show "wf (measure (\<lambda>(w, b, s). unat w))" by simp
next
  fix w :: uint8_t and b b' :: bool and s s' :: pth_state and i :: nat
  assume nz: "w \<noteq> 0" and i: "i = builtin_ctz w"
  have step: "bit v (ctz_from k j v) \<and> ctz_from k j v < j + k"
    if "\<exists>n. j \<le> n \<and> n < j + k \<and> bit v n" for k j and v :: uint8_t
    using that
  proof (induction k arbitrary: j)
    case 0
    then show ?case by auto
  next
    case (Suc k)
    show ?case
    proof (cases "bit v j")
      case True
      then show ?thesis by simp
    next
      case False
      from Suc.prems obtain n where n: "j \<le> n" "n < j + Suc k" "bit v n" by blast
      with False have "j \<noteq> n" by auto
      with n have "\<exists>n. Suc j \<le> n \<and> n < Suc j + k \<and> bit v n" by (intro exI[of _ n]) auto
      from Suc.IH[OF this] False show ?thesis by simp
    qed
  qed
  from nz obtain n where n: "bit w n" by (auto simp: bit_eq_iff)
  then have "n < 8" using bit_imp_le_length[of w n] by simp
  with n have "\<exists>n. 0 \<le> n \<and> n < 0 + 8 \<and> bit w n" by auto
  from step[OF this] have bw: "bit w i" by (simp add: i builtin_ctz_def)
  have le: "clear_bit w i \<le> w" unfolding clear_bit_def by (rule word_and_le2)
  have "\<not> bit (clear_bit w i) i"
    by (auto simp add: clear_bit_def bit_and_iff bit_not_iff bit_push_bit_iff bit_exp_iff bit_1_iff
          dest: bit_imp_le_length)
  with bw have "clear_bit w i \<noteq> w" by auto
  with le have "clear_bit w i < w" by simp
  then show "((clear_bit w i, b', s'), (w, b, s)) \<in> measure (\<lambda>(w, b, s). unat w)"
    by (simp add: word_less_nat_alt)
qed

declare release_loop.simps [simp del]

definition process_release_records ::
  "release_time_t \<Rightarrow> bool \<Rightarrow> pth_state \<Rightarrow> bool \<times> pth_state" where
  "process_release_records release_time wait_before_first s =
     (let to_be_released_bitmask = get_to_be_released_bitmask release_time s
      in if to_be_released_bitmask = 0 then (False, s)
         else
           let s = s\<lparr>used_release_records_bitmask :=
                       used_release_records_bitmask s AND NOT to_be_released_bitmask\<rparr>;
               waited = \<not> wait_before_first
           in release_loop to_be_released_bitmask waited s)"

definition process_release_records_and_wait_before_first ::
  "release_time_t \<Rightarrow> pth_state \<Rightarrow> bool \<times> pth_state" where
  "process_release_records_and_wait_before_first release_time s =
     process_release_records release_time True s"

text \<open>
  \<^verbatim>\<open>add_release_record\<close>. When every slot is used the record goes straight to
  \<^verbatim>\<open>process_record\<close>, and the function then carries on to \<^verbatim>\<open>__builtin_ctz(0)\<close>, whose
  result C leaves undefined: the model stops there with an error that holds the state
  reached.
\<close>

datatype error = Undefined_ctz_of_zero

definition add_release_record ::
  "keyrecord_t \<Rightarrow> release_time_t \<Rightarrow> pth_state \<Rightarrow> (error \<times> pth_state) + pth_state" where
  "add_release_record record release_time s =
     (let has_no_record_bitmask = NOT (used_release_records_bitmask s)
      in if has_no_record_bitmask = 0
         then Inl (Undefined_ctz_of_zero, emit (Process_record record) s)
         else
           let lsb_unset_index = builtin_ctz has_no_record_bitmask;
               s = s\<lparr>release_records := (release_records s)[lsb_unset_index := record]\<rparr>;
               is_before_second = (release_time = BEFORE_SECOND);
               s = s\<lparr>is_before_second_bitmask :=
                       change_bit (is_before_second_bitmask s) lsb_unset_index is_before_second\<rparr>
           in Inr (s\<lparr>used_release_records_bitmask :=
                        set_bit_u8 (used_release_records_bitmask s) lsb_unset_index\<rparr>))"

subsection \<open>Decisions\<close>

definition should_neutralize_mods ::
  "qmk_env \<Rightarrow> hooks \<Rightarrow> pth_state \<Rightarrow> uint16_t \<Rightarrow> bool \<Rightarrow> bool" where
  "should_neutralize_mods e h s keycode was_held_instantly \<longleftrightarrow>
     was_held_instantly \<and> IS_QK_MOD_TAP keycode
     \<and> hk_should_neutralize_mods h s (get_5_bit_mods_of_mod_tap e keycode)"

definition make_decision_tap :: "qmk_env \<Rightarrow> hooks \<Rightarrow> pth_state \<Rightarrow> pth_state" where
  "make_decision_tap e h s =
     (if status_num (pth_status s) \<ge> status_num PTH_DECIDED_TAP then s
      else
        let s = s\<lparr>pth_status := PTH_DECIDED_TAP\<rparr>;
            s = (if should_neutralize_mods e h s (pth_keycode s) (pth_was_held_instantly s)
                    \<or> should_neutralize_mods e h s (second_keycode s) (second_was_held_instantly s)
                 then tap_code16 PTH_INSTANT_MOD_TAP_SUPPRESSION_KEY s else s);
            s = (if pth_was_held_instantly s then
                   let s = (if IS_QK_LAYER_TAP (pth_keycode s) then
                              let s = s\<lparr>second_keycode :=
                                          get_keycode_same_pos_in_layer e (second_record s)
                                            (layer_before_instant_layer_tap s)\<rparr>
                              in s\<lparr>second_is_tap_hold := pth_is_tap_hold_keycode (second_keycode s)\<rparr>
                            else s)
                   in on_pth_record process_unregister_record_as_hold s
                 else s);
            s = (if second_was_held_instantly s
                 then on_second_record process_unregister_record_as_hold s else s);
            s = on_pth_record process_register_record_as_tap s;
            s = snd (process_release_records_and_wait_before_first BEFORE_SECOND s)
        in if \<not> has_second s then s
           else
             let s = (if second_is_tap_hold s then
                        let s = (if \<not> second_to_be_released s
                                 then add_pos_to_tap_releases (key (second_record s)) s else s)
                        in s\<lparr>second_record := set_record_to_tap (second_record s)\<rparr>
                      else s);
                 s = on_second_record process_register_record s;
                 (waited, s) = process_release_records_and_wait_before_first AFTER_SECOND s
             in if second_to_be_released s then
                  let s = (if \<not> waited then send_and_wait s else s)
                  in on_second_record process_unregister_record s
                else s)"

definition make_decision_hold :: "qmk_env \<Rightarrow> hooks \<Rightarrow> pth_state \<Rightarrow> pth_state" where
  "make_decision_hold e h s =
     (if status_num (pth_status s) \<ge> status_num PTH_DECIDED_TAP then s
      else
        let s = s\<lparr>pth_status := PTH_DECIDED_HOLD\<rparr>;
            s = (if \<not> pth_was_held_instantly s then register_pth_hold e s else s);
            s = snd (process_release_records BEFORE_SECOND (pth_was_held_instantly s) s)
        in if \<not> has_second s then s
           else
             let s = (if \<not> second_was_held_instantly s then
                        let s = (if second_is_tap_hold s then
                                   if second_is_same_side_as_pth s
                                      \<and> hk_should_register_as_hold_when_same_side h s
                                          (second_keycode s) (second_record s)
                                   then s\<lparr>second_record := set_record_to_hold (second_record s)\<rparr>
                                   else
                                     let s = (if \<not> second_to_be_released s
                                              then add_pos_to_tap_releases (key (second_record s)) s
                                              else s)
                                     in s\<lparr>second_record := set_record_to_tap (second_record s)\<rparr>
                                 else s)
                        in on_second_record process_register_record s
                      else s);
                 (waited, s) = process_release_records AFTER_SECOND (second_was_held_instantly s) s
             in if second_to_be_released s then
                  let s = (if \<not> waited then send_and_wait s else s)
                  in on_second_record process_unregister_record s
                else s)"

definition make_user_choice_or_not :: "config \<Rightarrow> qmk_env \<Rightarrow> hooks \<Rightarrow> pth_state \<Rightarrow> pth_state" where
  "make_user_choice_or_not c e h s =
     (let s = s\<lparr>has_chosen_after_timeout_reached := True\<rparr>;
          choice = hk_get_forced_choice_after_timeout h s
      in if choice = PTH_DECIDED_HOLD then make_decision_hold e h s
         else if choice = PTH_DECIDED_TAP then
           let s = make_decision_tap e h s
           in if PTH_RESET_IMMEDIATELY_WHEN_TAP_CHOSEN c
              then reset_pth_state (add_pos_to_tap_releases (key (pth_record s)) s)
              else s
         else s)"

subsection \<open>The timing tracker\<close>

text \<open>
  \<open>elapsed_now\<close> is the reading of \<^verbatim>\<open>timer_read()\<close> inside \<^verbatim>\<open>timer_elapsed\<close>. The two
  weighted averages computed at the end of the C function are the \<^verbatim>\<open>float\<close> values
  left out of the state.
\<close>

definition store_press_to_press_and_overlap_for_pth :: "uint16_t \<Rightarrow> pth_state \<Rightarrow> pth_state" where
  "store_press_to_press_and_overlap_for_pth elapsed_now s =
     (let s = s\<lparr>pth_prev_prev_press_to_prev_press_dur := prev_press_to_press_dur s\<rparr>;
          s = s\<lparr>pth_prev_press_to_pth_press_dur := cur_press_to_press_dur s\<rparr>;
          down_count_before_this = down_count s - 1;
          s = s\<lparr>pth_prev_prev_overlap_dur := prev_overlap_dur s\<rparr>;
          s = s\<lparr>pth_prev_overlap_dur := cur_overlap_dur s\<rparr>
      in if down_count_before_this = 1 then
           let s = s\<lparr>pth_prev_prev_overlap_dur := pth_prev_overlap_dur s\<rparr>
           in s\<lparr>pth_prev_overlap_dur := 0\<rparr>
         else if down_count_before_this \<ge> 2 then
           let s = s\<lparr>pth_prev_prev_overlap_dur := 0\<rparr>
           in if overlap_timer_max_reached s
              then s\<lparr>pth_prev_overlap_dur := MS_MAX_DUR_FOR_TIMERS\<rparr>
              else s\<lparr>pth_prev_overlap_dur := TIMER_DIFF_16 elapsed_now (overlap_timer s)\<rparr>
         else s)"

definition collect_new_press_to_press_and_overlap_duration ::
  "bool \<Rightarrow> uint16_t \<Rightarrow> pth_state \<Rightarrow> pth_state" where
  "collect_new_press_to_press_and_overlap_duration is_pressed cur_time s =
     (if is_pressed then
        let p_to_p_dur = (if press_to_press_timer_max_reached s then MS_MAX_DUR_FOR_TIMERS
                          else TIMER_DIFF_16 cur_time (press_to_press_timer s));
            s = s\<lparr>prev_press_to_press_dur := cur_press_to_press_dur s\<rparr>;
            s = s\<lparr>cur_press_to_press_dur := p_to_p_dur\<rparr>;
            s = s\<lparr>press_to_press_timer := cur_time, press_to_press_timer_max_reached := False\<rparr>;
            s = s\<lparr>down_count := down_count s + 1\<rparr>
        in if down_count s = 2
           then s\<lparr>overlap_timer := cur_time, overlap_timer_max_reached := False\<rparr>
           else s
      else
        let overlap = (if down_count s \<ge> 2 then
                         if overlap_timer_max_reached s then MS_MAX_DUR_FOR_TIMERS
                         else TIMER_DIFF_16 cur_time (overlap_timer s)
                       else 0);
            s = (if down_count s > 0 then s\<lparr>down_count := down_count s - 1\<rparr> else s);
            s = s\<lparr>prev_overlap_dur := cur_overlap_dur s\<rparr>;
            s = s\<lparr>cur_overlap_dur := overlap\<rparr>;
            s = s\<lparr>overlap_timer := cur_time, overlap_timer_max_reached := False\<rparr>
        in s\<lparr>release_timer := cur_time, release_timer_max_reached := False\<rparr>)"


subsection \<open>The state machine\<close>

text \<open>
  \<^verbatim>\<open>process_record_predictive_tap_hold\<close> is one C function; the model names the arms of
  its \<^verbatim>\<open>switch\<close>, and within the longer arms the consecutive blocks of statements.
  Each arm gets the keycode, the caller's record, \<open>cur_time\<close> (the reading of
  \<^verbatim>\<open>timer_read()\<close> at entry) and \<open>elapsed_now\<close>, and yields the return value with the new
  state. \<open>pass_through\<close> is the code after the \<^verbatim>\<open>switch\<close>, reached by every \<^verbatim>\<open>break\<close>.
\<close>

type_synonym result = "(error \<times> pth_state) + (bool \<times> pth_state)"

definition pass_through :: "keyrecord_t \<Rightarrow> pth_state \<Rightarrow> result" where
  "pass_through record s =
     (if \<not> pressed record \<and> \<not> second_was_held_instantly s
         \<and> keypos_eq (key record) (key (second_record s))
      then Inr (True, send_and_wait s)
      else Inr (True, s))"

definition cached :: "(error \<times> pth_state) + pth_state \<Rightarrow> result" where
  "cached r = (case r of Inl err \<Rightarrow> Inl err | Inr s \<Rightarrow> Inr (False, s))"

definition tap_chosen_reset :: "config \<Rightarrow> pth_state \<Rightarrow> pth_state" where
  "tap_chosen_reset c s =
     (if PTH_RESET_IMMEDIATELY_WHEN_TAP_CHOSEN c
      then reset_pth_state (add_pos_to_tap_releases (key (pth_record s)) s)
      else s)"

definition idle_press_rest ::
  "config \<Rightarrow> qmk_env \<Rightarrow> hooks \<Rightarrow> uint16_t \<Rightarrow> pth_state \<Rightarrow> result" where
  "idle_press_rest c e h keycode s =
     (if PTH_FAST_STREAK_TAP_ENABLE c \<and> hk_predict_fast_streak_tap h s then
        if PTH_FAST_STREAK_TAP_RESET_IMMEDIATELY c then
          let s = on_pth_record process_register_record_as_tap s;
              s = add_pos_to_tap_releases (key (pth_record s)) s
          in Inr (False, reset_pth_state s)
        else Inr (False, make_decision_tap e h s)
      else
        let s = s\<lparr>pth_was_held_instantly :=
                    (pth_tap_code_instead_of_hold s = KC_NO
                     \<and> hk_should_hold_instantly h s (pth_keycode s) (pth_record s))\<rparr>
        in if pth_was_held_instantly s then
             let s = (if IS_QK_LAYER_TAP keycode then
                        let s = s\<lparr>instant_layer_was_active := True\<rparr>
                        in s\<lparr>layer_before_instant_layer_tap :=
                               layer_switch_get_layer e s (key (pth_record s))\<rparr>
                      else s)
             in Inr (False, on_pth_record process_register_record_as_hold s)
           else Inr (False, s))"

text \<open>The Idle arm on the press of a tap-hold key: what is captured before the forced choice.\<close>

definition idle_press_capture ::
  "hooks \<Rightarrow> uint16_t \<Rightarrow> keyrecord_t \<Rightarrow> uint16_t \<Rightarrow> uint16_t \<Rightarrow> pth_state \<Rightarrow> pth_state" where
  "idle_press_capture h keycode record cur_time elapsed_now s =
     (let s = s\<lparr>pth_status := PTH_PRESSED\<rparr>;
          s = s\<lparr>pth_press_timer := cur_time\<rparr>;
          s = s\<lparr>pth_keycode := keycode\<rparr>;
          s = s\<lparr>pth_record := record\<rparr>;
          side = hk_get_side h s (pth_record s);
          s = s\<lparr>pth_side_user_bits := PTH_GET_USER_BITS side\<rparr>;
          s = s\<lparr>pth_atomic_side := PTH_GET_PTH_ATOM_SIDE side\<rparr>;
          s = (if release_timer_max_reached s
               then s\<lparr>key_release_before_pth_to_pth_press_dur := MS_MAX_DUR_FOR_TIMERS\<rparr>
               else s\<lparr>key_release_before_pth_to_pth_press_dur :=
                        TIMER_DIFF_16 (pth_press_timer s) (release_timer s)\<rparr>);
          s = store_press_to_press_and_overlap_for_pth elapsed_now s;
          s = s\<lparr>pth_tap_code_instead_of_hold :=
                  hk_get_code_to_be_registered_instead_when_hold_chosen h s\<rparr>
      in s\<lparr>timeout_for_forcing_choice := hk_get_timeout_for_forcing_choice h s\<rparr>)"

definition idle_case ::
  "config \<Rightarrow> qmk_env \<Rightarrow> hooks \<Rightarrow> uint16_t \<Rightarrow> keyrecord_t \<Rightarrow> uint16_t \<Rightarrow> uint16_t
   \<Rightarrow> pth_state \<Rightarrow> result" where
  "idle_case c e h keycode record cur_time elapsed_now s =
     (if pressed record \<and> pth_is_tap_hold_keycode keycode then
        let s = idle_press_capture h keycode record cur_time elapsed_now s
        in if timeout_for_forcing_choice s = 0 then
             let s = make_user_choice_or_not c e h s
             in if status_num (pth_status s) \<ge> status_num PTH_DECIDED_TAP then Inr (False, s)
                else idle_press_rest c e h keycode s
           else idle_press_rest c e h keycode s
      else pass_through record s)"

text \<open>The Pressed arm on a press: what is captured of the second key, and what follows.\<close>

definition second_press_capture ::
  "hooks \<Rightarrow> uint16_t \<Rightarrow> keyrecord_t \<Rightarrow> uint16_t \<Rightarrow> pth_state \<Rightarrow> pth_state" where
  "second_press_capture h keycode record cur_time s =
     (let s = s\<lparr>pth_status := PTH_SECOND_PRESSED\<rparr>;
          s = s\<lparr>has_second := True\<rparr>;
          s = s\<lparr>second_press_timer := cur_time\<rparr>;
          s = s\<lparr>second_keycode := keycode\<rparr>;
          s = s\<lparr>second_record := record\<rparr>;
          s = s\<lparr>second_is_tap_hold := pth_is_tap_hold_keycode keycode\<rparr>;
          s = s\<lparr>second_is_same_side_as_pth := is_record_same_side_as_pth h s record\<rparr>
      in if pth_press_timer_max_reached s
         then s\<lparr>pth_press_to_second_press_dur := MS_MAX_DUR_FOR_TIMERS\<rparr>
         else s\<lparr>pth_press_to_second_press_dur :=
                  TIMER_DIFF_16 (second_press_timer s) (pth_press_timer s)\<rparr>)"

definition second_press_decide :: "config \<Rightarrow> qmk_env \<Rightarrow> hooks \<Rightarrow> pth_state \<Rightarrow> result" where
  "second_press_decide c e h s =
     (if pth_was_held_instantly s \<and> instant_layer_was_active s \<and> second_keycode s = KC_NO
      then Inr (False, tap_chosen_reset c (make_decision_tap e h s))
      else
        let s = (if second_is_tap_hold s \<or> \<not> second_is_same_side_as_pth s
                 then s\<lparr>min_overlap_dur_for_hold :=
                          word_of_int (min PTH_MS_MAX_OVERLAP (max PTH_MS_MIN_OVERLAP
                            (uint (hk_predict_min_overlap_for_hold_in_ms h s))))\<rparr>
                 else s)
        in if \<not> second_is_same_side_as_pth s then Inr (False, s)
           else if hk_should_choose_tap_when_second_is_same_side_press h s
           then Inr (False, tap_chosen_reset c (make_decision_tap e h s))
           else if second_is_tap_hold s
                   \<and> hk_second_should_hold_instantly h s (second_keycode s) (second_record s)
           then
             let s = (if \<not> instant_layer_was_active s \<and> IS_QK_LAYER_TAP (second_keycode s)
                      then
                        let s = s\<lparr>layer_before_instant_layer_tap :=
                                    layer_switch_get_layer e s (key (second_record s))\<rparr>
                        in s\<lparr>instant_layer_was_active := True\<rparr>
                      else s);
                 s = s\<lparr>second_was_held_instantly := True\<rparr>
             in Inr (False, on_second_record process_register_record_as_hold s)
           else Inr (False, s))"

definition pressed_case ::
  "config \<Rightarrow> qmk_env \<Rightarrow> hooks \<Rightarrow> uint16_t \<Rightarrow> keyrecord_t \<Rightarrow> uint16_t \<Rightarrow> pth_state \<Rightarrow> result" where
  "pressed_case c e h keycode record cur_time s =
     (if pressed record
      then second_press_decide c e h (second_press_capture h keycode record cur_time s)
      else if keypos_eq (key record) (key (pth_record s)) then
        let s = make_decision_tap e h s;
            s = send_and_wait s;
            s = on_pth_record process_unregister_record_as_tap s
        in Inr (False, reset_pth_state s)
      else cached (add_release_record record BEFORE_SECOND s))"

text \<open>The Second-pressed arm: a third press, the release of the PTH key, the release of the second key.\<close>

definition third_press ::
  "config \<Rightarrow> qmk_env \<Rightarrow> hooks \<Rightarrow> uint16_t \<Rightarrow> keyrecord_t \<Rightarrow> uint16_t \<Rightarrow> pth_state \<Rightarrow> pth_state" where
  "third_press c e h keycode record cur_time s =
     (let s = (if second_press_timer_max_reached s
               then s\<lparr>pth_second_press_to_third_press_dur := MS_MAX_DUR_FOR_TIMERS\<rparr>
               else s\<lparr>pth_second_press_to_third_press_dur :=
                        TIMER_DIFF_16 cur_time (second_press_timer s)\<rparr>);
          hold = hk_predict_hold_when_third_press h s;
          s = (if hold then make_decision_hold e h s else make_decision_tap e h s);
          keycode = (if \<not> hold \<and> instant_layer_was_active s
                     then get_keycode_same_pos_in_layer e record (layer_before_instant_layer_tap s)
                     else keycode);
          third_is_tap_hold = pth_is_tap_hold_keycode keycode;
          s = (if third_is_tap_hold then
                 if hold \<and> is_record_same_side_as_pth h s record
                    \<and> hk_should_register_as_hold_when_same_side h s keycode record
                 then snd (process_register_record_as_hold record s)
                 else snd (process_register_record_as_tap record
                             (add_pos_to_tap_releases (key record) s))
               else process_record_with_new_time record s)
      in if \<not> hold then tap_chosen_reset c s else s)"

definition pth_release_after_second :: "qmk_env \<Rightarrow> hooks \<Rightarrow> pth_state \<Rightarrow> pth_state" where
  "pth_release_after_second e h s =
     (let hold = (if \<not> second_is_same_side_as_pth s then
                    if second_to_be_released s
                    then hk_predict_hold_when_pth_release_after_second_release h s
                    else hk_predict_hold_when_pth_release_after_second_press h s
                  else False);
          s = (if hold then unregister_pth_hold (make_decision_hold e h s)
               else on_pth_record process_unregister_record_as_tap
                      (send_and_wait (make_decision_tap e h s)))
      in reset_pth_state s)"

definition second_release ::
  "config \<Rightarrow> qmk_env \<Rightarrow> hooks \<Rightarrow> uint16_t \<Rightarrow> pth_state \<Rightarrow> pth_state" where
  "second_release c e h cur_time s =
     (let s = s\<lparr>second_to_be_released := True\<rparr>
      in if second_is_same_side_as_pth s
            \<and> hk_should_choose_tap_when_second_is_same_side_release h s
         then tap_chosen_reset c (make_decision_tap e h s)
         else
           let s = (if pth_press_timer_max_reached s
                    then s\<lparr>pth_press_to_second_release_dur := MS_MAX_DUR_FOR_TIMERS\<rparr>
                    else s\<lparr>pth_press_to_second_release_dur :=
                             TIMER_DIFF_16 cur_time (pth_press_timer s)\<rparr>)
           in if second_press_timer_max_reached s
              then s\<lparr>pth_second_dur := MS_MAX_DUR_FOR_TIMERS\<rparr>
              else s\<lparr>pth_second_dur := TIMER_DIFF_16 cur_time (second_press_timer s)\<rparr>)"

definition second_pressed_case ::
  "config \<Rightarrow> qmk_env \<Rightarrow> hooks \<Rightarrow> uint16_t \<Rightarrow> keyrecord_t \<Rightarrow> uint16_t \<Rightarrow> pth_state \<Rightarrow> result" where
  "second_pressed_case c e h keycode record cur_time s =
     (if pressed record then Inr (False, third_press c e h keycode record cur_time s)
      else if keypos_eq (key record) (key (pth_record s))
      then Inr (False, pth_release_after_second e h s)
      else if keypos_eq (key record) (key (second_record s))
      then Inr (False, second_release c e h cur_time s)
      else cached (add_release_record record AFTER_SECOND s))"

definition decided_tap_case :: "uint16_t \<Rightarrow> keyrecord_t \<Rightarrow> pth_state \<Rightarrow> result" where
  "decided_tap_case keycode record s =
     (if pressed record then
        if pth_is_tap_hold_keycode keycode then
          let s = add_pos_to_tap_releases (key record) s
          in Inr (False, snd (process_register_record_as_tap record s))
        else pass_through record s
      else if keypos_eq (key record) (key (pth_record s)) then
        let s = send_and_wait s;
            s = on_pth_record process_unregister_record_as_tap s
        in Inr (False, reset_pth_state s)
      else pass_through record s)"

definition decided_hold_case :: "hooks \<Rightarrow> uint16_t \<Rightarrow> keyrecord_t \<Rightarrow> pth_state \<Rightarrow> result" where
  "decided_hold_case h keycode record s =
     (if pressed record then
        if pth_is_tap_hold_keycode keycode then
          if is_record_same_side_as_pth h s record
             \<and> hk_should_register_as_hold_when_same_side h s keycode record
          then Inr (False, snd (process_register_record_as_hold record s))
          else
            let s = add_pos_to_tap_releases (key record) s
            in Inr (False, snd (process_register_record_as_tap record s))
        else pass_through record s
      else if keypos_eq (key record) (key (pth_record s)) then
        let s = unregister_pth_hold s
        in Inr (False, reset_pth_state s)
      else pass_through record s)"

definition state_machine ::
  "config \<Rightarrow> qmk_env \<Rightarrow> hooks \<Rightarrow> uint16_t \<Rightarrow> keyrecord_t \<Rightarrow> uint16_t \<Rightarrow> uint16_t
   \<Rightarrow> pth_state \<Rightarrow> result" where
  "state_machine c e h keycode record cur_time elapsed_now s =
     (case pth_status s of
        PTH_IDLE \<Rightarrow> idle_case c e h keycode record cur_time elapsed_now s
      | PTH_PRESSED \<Rightarrow> pressed_case c e h keycode record cur_time s
      | PTH_SECOND_PRESSED \<Rightarrow> second_pressed_case c e h keycode record cur_time s
      | PTH_DECIDED_TAP \<Rightarrow> decided_tap_case keycode record s
      | PTH_DECIDED_HOLD \<Rightarrow> decided_hold_case h keycode record s)"

definition process_record_predictive_tap_hold ::
  "config \<Rightarrow> qmk_env \<Rightarrow> hooks \<Rightarrow> uint16_t \<Rightarrow> keyrecord_t \<Rightarrow> uint16_t \<Rightarrow> uint16_t
   \<Rightarrow> pth_state \<Rightarrow> result" where
  "process_record_predictive_tap_hold c e h keycode record cur_time elapsed_now s =
     (if is_processing_record_due_to_pth s \<or> \<not> IS_KEYEVENT record then Inr (True, s)
      else if TAPPING_TERM_PER_KEY c \<and> get_tapping_term e s keycode record \<noteq> 0 then Inr (True, s)
      else if TAP_DANCE_ENABLE c \<and> IS_QK_TAP_DANCE keycode then Inr (True, s)
      else if COMBO_ENABLE c \<and> IS_COMBOEVENT record then Inr (True, s)
      else
        let s = collect_new_press_to_press_and_overlap_duration (pressed record) cur_time s
        in if pressed record then
             let s = s\<lparr>prev_press_keycode := cur_press_keycode s\<rparr>;
                 s = s\<lparr>cur_press_keycode := keycode\<rparr>
             in state_machine c e h keycode record cur_time elapsed_now s
           else
             case remove_pos_from_tap_releases (key record) s of
               (True, s) \<Rightarrow>
                 if pth_status s = PTH_PRESSED \<or> pth_status s = PTH_SECOND_PRESSED
                 then state_machine c e h keycode (set_record_to_tap record) cur_time elapsed_now s
                 else Inr (False, snd (process_unregister_record_as_tap record s))
             | (False, s) \<Rightarrow> state_machine c e h keycode record cur_time elapsed_now s)"

subsection \<open>Housekeeping\<close>

definition housekeeping_timers :: "uint16_t \<Rightarrow> pth_state \<Rightarrow> pth_state" where
  "housekeeping_timers cur_time s =
     (let s = (if \<not> release_timer_max_reached s
                  \<and> TIMER_DIFF_16 cur_time (release_timer s) \<ge> MS_MAX_DUR_FOR_TIMERS
               then s\<lparr>release_timer_max_reached := True\<rparr> else s);
          s = (if \<not> overlap_timer_max_reached s \<and> down_count s \<ge> 2
                  \<and> TIMER_DIFF_16 cur_time (overlap_timer s) \<ge> MS_MAX_DUR_FOR_TIMERS
               then s\<lparr>overlap_timer_max_reached := True\<rparr> else s)
      in if \<not> press_to_press_timer_max_reached s
            \<and> TIMER_DIFF_16 cur_time (press_to_press_timer s) \<ge> MS_MAX_DUR_FOR_TIMERS
         then s\<lparr>press_to_press_timer_max_reached := True\<rparr> else s)"

definition housekeeping_pth_press_timer ::
  "config \<Rightarrow> qmk_env \<Rightarrow> hooks \<Rightarrow> uint16_t \<Rightarrow> pth_state \<Rightarrow> pth_state" where
  "housekeeping_pth_press_timer c e h cur_time s =
     (if \<not> pth_press_timer_max_reached s then
        if TIMER_DIFF_16 cur_time (pth_press_timer s) \<ge> MS_MAX_DUR_FOR_TIMERS
        then s\<lparr>pth_press_timer_max_reached := True\<rparr>
        else if \<not> has_chosen_after_timeout_reached s \<and> sint (timeout_for_forcing_choice s) > 0
                \<and> uint (TIMER_DIFF_16 cur_time (pth_press_timer s))
                    \<ge> sint (timeout_for_forcing_choice s)
        then make_user_choice_or_not c e h s
        else s
      else s)"

definition housekeeping_task_predictive_tap_hold ::
  "config \<Rightarrow> qmk_env \<Rightarrow> hooks \<Rightarrow> uint16_t \<Rightarrow> pth_state \<Rightarrow> pth_state" where
  "housekeeping_task_predictive_tap_hold c e h cur_time s =
     (let s = housekeeping_timers cur_time s
      in if pth_status s = PTH_IDLE \<or> status_num (pth_status s) \<ge> status_num PTH_DECIDED_TAP
         then s
         else if \<not> second_press_timer_max_reached s \<and> pth_status s = PTH_SECOND_PRESSED then
           if min_overlap_dur_for_hold s > 0
              \<and> TIMER_DIFF_16 cur_time (second_press_timer s) \<ge> min_overlap_dur_for_hold s
           then make_decision_hold e h s
           else
             let s = (if TIMER_DIFF_16 cur_time (second_press_timer s) \<ge> MS_MAX_DUR_FOR_TIMERS
                      then s\<lparr>second_press_timer_max_reached := True\<rparr> else s)
             in housekeeping_pth_press_timer c e h cur_time s
         else housekeeping_pth_press_timer c e h cur_time s)"

subsection \<open>Runs of the two entry points\<close>

datatype input =
  Key_event uint16_t keyrecord_t uint16_t uint16_t
  | Tick uint16_t

fun step :: "config \<Rightarrow> qmk_env \<Rightarrow> hooks \<Rightarrow> input \<Rightarrow> pth_state \<Rightarrow> (error \<times> pth_state) + pth_state" where
  "step c e h (Key_event keycode record cur_time elapsed_now) s =
     (case process_record_predictive_tap_hold c e h keycode record cur_time elapsed_now s of
        Inl err \<Rightarrow> Inl err
      | Inr (b, s') \<Rightarrow> Inr s')"
| "step c e h (Tick cur_time) s = Inr (housekeeping_task_predictive_tap_hold c e h cur_time s)"

fun run :: "config \<Rightarrow> qmk_env \<Rightarrow> hooks \<Rightarrow> input list \<Rightarrow> pth_state \<Rightarrow> (error \<times> pth_state) + pth_state" where
  "run c e h [] s = Inr s"
| "run c e h (i # is) s =
     (case step c e h i s of Inl err \<Rightarrow> Inl err | Inr s' \<Rightarrow> run c e h is s')"


subsection \<open>A concrete keyboard\<close>

text \<open>
  A build with every switch off, a keymap environment without active modifiers, and the
  hooks as shipped (the predictors answer tap, with a predicted overlap of 80 ms). Keys
  sit in row 0; columns 0 to 4 are the left hand.
\<close>

definition example_config :: config where
  "example_config = \<lparr>TAPPING_TERM_PER_KEY = False, TAP_DANCE_ENABLE = False,
     COMBO_ENABLE = False, CAPS_WORD_ENABLE = False, NO_ACTION_ONESHOT = False,
     PTH_RESET_IMMEDIATELY_WHEN_TAP_CHOSEN = False, PTH_FAST_STREAK_TAP_ENABLE = False,
     PTH_FAST_STREAK_TAP_RESET_IMMEDIATELY = False\<rparr>"

definition example_tap_keycode :: "uint16_t \<Rightarrow> uint16_t" where
  "example_tap_keycode kc = (if pth_is_tap_hold_keycode kc then kc AND 0xFF else kc)"

definition example_side_layout :: "uint8_t \<Rightarrow> uint8_t \<Rightarrow> uint8_t" where
  "example_side_layout r c = (if c < 5 then 0 else 5)"

definition example_env :: qmk_env where
  "example_env = \<lparr>get_tapping_term = (\<lambda>s kc r. 0), get_mods = (\<lambda>s. 0),
     get_oneshot_mods = (\<lambda>s. 0), is_caps_word_on = (\<lambda>s. False), mod_config = (\<lambda>m. m),
     get_tap_keycode = example_tap_keycode, layer_switch_get_layer = (\<lambda>s p. 0),
     keycode_at_keymap_location = (\<lambda>l r c. KC_NO), pth_side_layout = example_side_layout\<rparr>"

definition example_predictors :: hooks where
  "example_predictors = \<lparr>hk_get_side = (\<lambda>s r. 0), hk_predict_fast_streak_tap = (\<lambda>s. False),
     hk_should_hold_instantly = (\<lambda>s kc r. False),
     hk_second_should_hold_instantly = (\<lambda>s kc r. False),
     hk_should_choose_tap_when_second_is_same_side_press = (\<lambda>s. False),
     hk_should_choose_tap_when_second_is_same_side_release = (\<lambda>s. False),
     hk_get_timeout_for_forcing_choice = (\<lambda>s. 0),
     hk_get_forced_choice_after_timeout = (\<lambda>s. PTH_IDLE),
     hk_should_neutralize_mods = (\<lambda>s m. False),
     hk_get_code_to_be_registered_instead_when_hold_chosen = (\<lambda>s. 0),
     hk_should_register_as_hold_when_same_side = (\<lambda>s kc r. False),
     hk_predict_hold_when_third_press = (\<lambda>s. False),
     hk_predict_hold_when_pth_release_after_second_press = (\<lambda>s. False),
     hk_predict_hold_when_pth_release_after_second_release = (\<lambda>s. False),
     hk_predict_min_overlap_for_hold_in_ms = (\<lambda>s. 80)\<rparr>"

definition example_hooks :: hooks where
  "example_hooks = default_hooks example_config example_env example_predictors"

definition key_at :: "uint8_t \<Rightarrow> bool \<Rightarrow> keyrecord_t" where
  "key_at c p = \<lparr>key = \<lparr>col = c, row = 0\<rparr>, pressed = p, ev_type = KEY_EVENT,
     tap_interrupted = False, tap_count = 0\<rparr>"

text \<open>\<^verbatim>\<open>LCTL_T(KC_A)\<close>, a mod-tap, and \<^verbatim>\<open>LT(1, KC_A)\<close>, a layer-tap.\<close>

definition LCTL_T_A :: uint16_t where "LCTL_T_A = 0x2104"
definition LT_1_A :: uint16_t where "LT_1_A = 0x4104"

text \<open>The environment with one modifier held: right Alt, and left Ctrl.\<close>

definition example_ralt_env :: qmk_env where
  "example_ralt_env = example_env\<lparr>get_mods := (\<lambda>s. MOD_BIT_RALT)\<rparr>"

definition example_lctl_env :: qmk_env where
  "example_lctl_env = example_env\<lparr>get_mods := (\<lambda>s. MOD_LCTL)\<rparr>"

text \<open>
  Nine plain keys go down, then the mod-tap in column 0, then the nine plain keys are
  released while the mod-tap is still undecided.
\<close>

definition overflow_inputs :: "input list" where
  "overflow_inputs =
     map (\<lambda>i. Key_event (of_nat (4 + i)) (key_at (of_nat i) True)
                 (of_nat (10 * i)) (of_nat (10 * i))) [1..<10]
     @ [Key_event LCTL_T_A (key_at 0 True) 100 100]
     @ map (\<lambda>i. Key_event (of_nat (4 + i)) (key_at (of_nat i) False)
                   (of_nat (100 + 10 * i)) (of_nat (100 + 10 * i))) [1..<10]"

text \<open>A state of the concrete keyboard in which the mod-tap was held past the timeout.\<close>

definition example_held_state :: pth_state where
  "example_held_state =
     (case run example_config example_env example_hooks
             [Key_event LCTL_T_A (key_at 0 True) 100 100, Tick 800] init_state of
        Inl err \<Rightarrow> init_state
      | Inr s \<Rightarrow> s)"

subsection \<open>What the two loops leave behind\<close>

text \<open>
  Names for what the loops compute, so that a loop can be replaced by an update of the
  fields it writes.
\<close>

definition tap_mask_after :: "keypos_t \<Rightarrow> uint8_t \<Rightarrow> pth_state \<Rightarrow> uint8_t" where
  "tap_mask_after pos w s = used_release_as_tap_positions_bitmask (snd (remove_pos_loop pos w s))"

definition release_loop_acts :: "uint8_t \<Rightarrow> bool \<Rightarrow> pth_state \<Rightarrow> action list" where
  "release_loop_acts w b s = drop (length (out s)) (out (snd (release_loop w b s)))"

text \<open>
  A build with \<^verbatim>\<open>PTH_RESET_IMMEDIATELY_WHEN_TAP_CHOSEN\<close> and \<^verbatim>\<open>PTH_FAST_STREAK_TAP_ENABLE\<close>,
  and hooks that decide on press (timeout 0), force tap, and predict a fast streak from
  the press-to-press duration alone.
\<close>

definition reset_streak_config :: config where
  "reset_streak_config = example_config\<lparr>PTH_RESET_IMMEDIATELY_WHEN_TAP_CHOSEN := True,
     PTH_FAST_STREAK_TAP_ENABLE := True\<rparr>"

definition short_gap_is_streak :: "pth_state \<Rightarrow> bool" where
  "short_gap_is_streak s \<longleftrightarrow> sint (pth_prev_press_to_pth_press_dur s) < 125"

definition decide_on_press_as_tap_hooks :: hooks where
  "decide_on_press_as_tap_hooks = example_hooks\<lparr>
     hk_get_timeout_for_forcing_choice := (\<lambda>s. 0),
     hk_get_forced_choice_after_timeout := (\<lambda>s. PTH_DECIDED_TAP),
     hk_predict_fast_streak_tap := short_gap_is_streak\<rparr>"

text \<open>The shipped hooks with the timeout replaced by \<open>-1\<close> (never force) and by \<open>0\<close>.\<close>

definition never_force_hooks :: hooks where
  "never_force_hooks = example_hooks\<lparr>hk_get_timeout_for_forcing_choice := (\<lambda>s. - 1)\<rparr>"

definition decide_on_press_hooks :: hooks where
  "decide_on_press_hooks = example_hooks\<lparr>hk_get_timeout_for_forcing_choice := (\<lambda>s. 0)\<rparr>"

text \<open>The state of the concrete keyboard after the press of the mod-tap alone.\<close>

definition example_pressed_state :: pth_state where
  "example_pressed_state =
     (case run example_config example_env example_hooks
             [Key_event LCTL_T_A (key_at 0 True) 100 100] init_state of
        Inl err \<Rightarrow> init_state
      | Inr s \<Rightarrow> s)"

subsection \<open>Names used in the proofs\<close>

text \<open>
  The fields a decision may write are erased by \<open>decision_core\<close>; \<open>tap_effect\<close> and
  \<open>hold_effect\<close> name the state a decision produces.
\<close>

definition decision_core :: "pth_state \<Rightarrow> pth_state" where
  "decision_core s = s\<lparr>pth_status := PTH_IDLE, out := [], is_processing_record_due_to_pth := False,
      second_keycode := 0, second_is_tap_hold := False, pth_record := zero_record,
      second_record := zero_record, used_release_records_bitmask := 0,
      release_as_tap_positions := [], used_release_as_tap_positions_bitmask := 0\<rparr>"

definition tap_effect :: "qmk_env \<Rightarrow> hooks \<Rightarrow> pth_state \<Rightarrow> pth_state" where
  "tap_effect e h s = make_decision_tap e h s"

definition hold_effect :: "qmk_env \<Rightarrow> hooks \<Rightarrow> pth_state \<Rightarrow> pth_state" where
  "hold_effect e h s = make_decision_hold e h s"

text \<open>What a decision keeps once the status is set.\<close>

definition keeps :: "pth_status_t \<Rightarrow> pth_state \<Rightarrow> pth_state \<Rightarrow> bool" where
  "keeps st s0 x \<longleftrightarrow> pth_status x = st
     \<and> key (pth_record x) = key (pth_record s0)
     \<and> ev_type (pth_record x) = ev_type (pth_record s0)
     \<and> key (second_record x) = key (second_record s0)
     \<and> length (release_as_tap_positions x) = length (release_as_tap_positions s0)
     \<and> length (release_records x) = length (release_records s0)
     \<and> release_records x = release_records s0
     \<and> \<not> is_processing_record_due_to_pth x"

text \<open>An event that gets past the tests at the head of the dispatcher.\<close>

definition passes_guards :: "config \<Rightarrow> qmk_env \<Rightarrow> pth_state \<Rightarrow> uint16_t \<Rightarrow> keyrecord_t \<Rightarrow> bool" where
  "passes_guards c e s keycode record \<longleftrightarrow>
     \<not> is_processing_record_due_to_pth s \<and> IS_KEYEVENT record
     \<and> \<not> (TAPPING_TERM_PER_KEY c \<and> get_tapping_term e s keycode record \<noteq> 0)
     \<and> \<not> (TAP_DANCE_ENABLE c \<and> IS_QK_TAP_DANCE keycode)"

definition clamp_overlap :: "uint16_t \<Rightarrow> uint16_t" where
  "clamp_overlap v = word_of_int (min PTH_MS_MAX_OVERLAP (max PTH_MS_MIN_OVERLAP (uint v)))"

subsection \<open>The state a hook is asked in\<close>

text \<open>
  On a press the dispatcher first lets the timing tracker count the press and notes the
  keycode; the arms of the state machine start from that state. The Idle arm looks up the
  timeout in \<open>idle_press_capture\<close> of it, the Pressed arm asks for the minimum overlap
  in \<open>second_press_capture\<close> of it.
\<close>

definition counted_press :: "uint16_t \<Rightarrow> uint16_t \<Rightarrow> pth_state \<Rightarrow> pth_state" where
  "counted_press keycode cur_time s =
     (let s = collect_new_press_to_press_and_overlap_duration True cur_time s;
          s = s\<lparr>prev_press_keycode := cur_press_keycode s\<rparr>
      in s\<lparr>cur_press_keycode := keycode\<rparr>)"

text \<open>
  A build with \<^verbatim>\<open>PTH_RESET_IMMEDIATELY_WHEN_TAP_CHOSEN\<close>, and the shipped hooks with
  \<^verbatim>\<open>pth_should_choose_tap_when_second_is_same_side_press\<close> overridden to answer true
  for every second key. \<^verbatim>\<open>LSFT_T(KC_B)\<close> is a second mod-tap.
\<close>

definition reset_on_tap_config :: config where
  "reset_on_tap_config = example_config\<lparr>PTH_RESET_IMMEDIATELY_WHEN_TAP_CHOSEN := True\<rparr>"

definition same_side_tap_hooks :: hooks where
  "same_side_tap_hooks = example_hooks\<lparr>
     hk_should_choose_tap_when_second_is_same_side_press := (\<lambda>s. True)\<rparr>"

definition LSFT_T_B :: uint16_t where "LSFT_T_B = 0x2205"

subsection \<open>Durations, and runs paced by the housekeeping task\<close>

text \<open>
  The durations the predictors read, and the four from which the snapshot at the press of
  the tap-hold key is taken. The \<^verbatim>\<open>int16_t\<close> ones start at \<open>-1\<close>.
\<close>

definition dur_in_range :: "uint16_t \<Rightarrow> bool" where
  "dur_in_range d \<longleftrightarrow> uint d \<le> uint MS_MAX_DUR_FOR_TIMERS"

definition dur_in_range_or_unset :: "int16_t \<Rightarrow> bool" where
  "dur_in_range_or_unset d \<longleftrightarrow>
     sint d = - 1 \<or> (0 \<le> sint d \<and> sint d \<le> uint MS_MAX_DUR_FOR_TIMERS)"

definition durations_in_range :: "pth_state \<Rightarrow> bool" where
  "durations_in_range s \<longleftrightarrow>
     dur_in_range (pth_press_to_second_press_dur s)
     \<and> dur_in_range (pth_press_to_second_release_dur s)
     \<and> dur_in_range (pth_second_dur s)
     \<and> dur_in_range (pth_second_press_to_third_press_dur s)
     \<and> dur_in_range (key_release_before_pth_to_pth_press_dur s)
     \<and> dur_in_range_or_unset (pth_prev_prev_press_to_prev_press_dur s)
     \<and> dur_in_range_or_unset (pth_prev_press_to_pth_press_dur s)
     \<and> dur_in_range_or_unset (pth_prev_prev_overlap_dur s)
     \<and> dur_in_range_or_unset (pth_prev_overlap_dur s)
     \<and> dur_in_range_or_unset (prev_press_to_press_dur s)
     \<and> dur_in_range_or_unset (cur_press_to_press_dur s)
     \<and> dur_in_range_or_unset (prev_overlap_dur s)
     \<and> dur_in_range_or_unset (cur_overlap_dur s)"

definition result_state :: "result \<Rightarrow> pth_state" where
  "result_state r = (case r of Inl (err, s) \<Rightarrow> s | Inr (b, s) \<Rightarrow> s)"

definition run_state :: "(error \<times> pth_state) + pth_state \<Rightarrow> pth_state" where
  "run_state r = (case r of Inl (err, s) \<Rightarrow> s | Inr s \<Rightarrow> s)"

text \<open>
  A run in which no key event is handled more than one millisecond after the housekeeping
  task last ran: \<open>g\<close> counts the milliseconds since that call, as of the latest timer
  reading \<open>t\<close>, and both timer readings of an event have to stay within the bound.
\<close>

fun well_paced :: "nat \<Rightarrow> uint16_t \<Rightarrow> input list \<Rightarrow> bool" where
  "well_paced g t [] = True"
| "well_paced g t (Tick t' # rest) = well_paced 0 t' rest"
| "well_paced g t (Key_event keycode record cur_time elapsed_now # rest) =
     (g + unat (TIMER_DIFF_16 cur_time t) + unat (TIMER_DIFF_16 elapsed_now cur_time) \<le> 1
      \<and> well_paced (g + unat (TIMER_DIFF_16 cur_time t)
                       + unat (TIMER_DIFF_16 elapsed_now cur_time)) elapsed_now rest)"

text \<open>What the housekeeping task at time \<open>t\<close> leaves behind about the five timers.\<close>

definition timers_checked :: "uint16_t \<Rightarrow> pth_state \<Rightarrow> bool" where
  "timers_checked t s \<longleftrightarrow>
     (release_timer_max_reached s \<or> TIMER_DIFF_16 t (release_timer s) < MS_MAX_DUR_FOR_TIMERS)
     \<and> (press_to_press_timer_max_reached s
          \<or> TIMER_DIFF_16 t (press_to_press_timer s) < MS_MAX_DUR_FOR_TIMERS)
     \<and> (overlap_timer_max_reached s \<or> down_count s < 2
          \<or> TIMER_DIFF_16 t (overlap_timer s) < MS_MAX_DUR_FOR_TIMERS)
     \<and> (pth_press_timer_max_reached s
          \<or> (pth_status s \<noteq> PTH_PRESSED \<and> pth_status s \<noteq> PTH_SECOND_PRESSED)
          \<or> TIMER_DIFF_16 t (pth_press_timer s) < MS_MAX_DUR_FOR_TIMERS)
     \<and> (second_press_timer_max_reached s \<or> pth_status s \<noteq> PTH_SECOND_PRESSED
          \<or> TIMER_DIFF_16 t (second_press_timer s) < MS_MAX_DUR_FOR_TIMERS)"

text \<open>The same \<open>g\<close> milliseconds later, at the reading \<open>t\<close>.\<close>

definition timers_within :: "nat \<Rightarrow> uint16_t \<Rightarrow> pth_state \<Rightarrow> bool" where
  "timers_within g t s \<longleftrightarrow>
     (release_timer_max_reached s
        \<or> unat (TIMER_DIFF_16 t (release_timer s)) < unat MS_MAX_DUR_FOR_TIMERS + g)
     \<and> (press_to_press_timer_max_reached s
          \<or> unat (TIMER_DIFF_16 t (press_to_press_timer s)) < unat MS_MAX_DUR_FOR_TIMERS + g)
     \<and> (overlap_timer_max_reached s \<or> down_count s < 2
          \<or> unat (TIMER_DIFF_16 t (overlap_timer s)) < unat MS_MAX_DUR_FOR_TIMERS + g)
     \<and> (pth_press_timer_max_reached s
          \<or> (pth_status s \<noteq> PTH_PRESSED \<and> pth_status s \<noteq> PTH_SECOND_PRESSED)
          \<or> unat (TIMER_DIFF_16 t (pth_press_timer s)) < unat MS_MAX_DUR_FOR_TIMERS + g)
     \<and> (second_press_timer_max_reached s \<or> pth_status s \<noteq> PTH_SECOND_PRESSED
          \<or> unat (TIMER_DIFF_16 t (second_press_timer s)) < unat MS_MAX_DUR_FOR_TIMERS + g)"

text \<open>
  What the arms of the state machine need of the timers they read, once the timing
  tracker has counted the event: \<open>cur_time\<close> and \<open>elapsed_now\<close> are the two readings.
\<close>

definition timers_ready :: "uint16_t \<Rightarrow> uint16_t \<Rightarrow> pth_state \<Rightarrow> bool" where
  "timers_ready cur_time elapsed_now s \<longleftrightarrow>
     (release_timer_max_reached s
        \<or> TIMER_DIFF_16 cur_time (release_timer s) \<le> MS_MAX_DUR_FOR_TIMERS)
     \<and> (overlap_timer_max_reached s \<or> down_count s - 1 < 2
          \<or> TIMER_DIFF_16 elapsed_now (overlap_timer s) \<le> MS_MAX_DUR_FOR_TIMERS)
     \<and> (pth_press_timer_max_reached s
          \<or> (pth_status s \<noteq> PTH_PRESSED \<and> pth_status s \<noteq> PTH_SECOND_PRESSED)
          \<or> TIMER_DIFF_16 cur_time (pth_press_timer s) \<le> MS_MAX_DUR_FOR_TIMERS)
     \<and> (second_press_timer_max_reached s \<or> pth_status s \<noteq> PTH_SECOND_PRESSED
          \<or> TIMER_DIFF_16 cur_time (second_press_timer s) \<le> MS_MAX_DUR_FOR_TIMERS)"

text \<open>
  A step that leaves the timers, their flags and the count of keys down alone, and the
  status and the flags of the two PTH timers too unless it ends idle or decided.
\<close>

definition clocks_kept :: "pth_state \<Rightarrow> pth_state \<Rightarrow> bool" where
  "clocks_kept s s' \<longleftrightarrow>
     release_timer s' = release_timer s
     \<and> release_timer_max_reached s' = release_timer_max_reached s
     \<and> press_to_press_timer s' = press_to_press_timer s
     \<and> press_to_press_timer_max_reached s' = press_to_press_timer_max_reached s
     \<and> overlap_timer s' = overlap_timer s
     \<and> overlap_timer_max_reached s' = overlap_timer_max_reached s
     \<and> down_count s' = down_count s
     \<and> pth_press_timer s' = pth_press_timer s
     \<and> second_press_timer s' = second_press_timer s
     \<and> (pth_status s' = pth_status s
          \<and> pth_press_timer_max_reached s' = pth_press_timer_max_reached s
          \<and> second_press_timer_max_reached s' = second_press_timer_max_reached s
        \<or> pth_status s' = PTH_IDLE \<or> pth_status s' = PTH_DECIDED_TAP
        \<or> pth_status s' = PTH_DECIDED_HOLD)"

text \<open>The durations of a state, and a state with a given status.\<close>

definition durs where
  "durs s = (pth_press_to_second_press_dur s, pth_press_to_second_release_dur s,
     pth_second_dur s, pth_second_press_to_third_press_dur s,
     key_release_before_pth_to_pth_press_dur s, pth_prev_prev_press_to_prev_press_dur s,
     pth_prev_press_to_pth_press_dur s, pth_prev_prev_overlap_dur s, pth_prev_overlap_dur s,
     prev_press_to_press_dur s, cur_press_to_press_dur s, prev_overlap_dur s,
     cur_overlap_dur s)"

definition has_status :: "pth_status_t \<Rightarrow> pth_state \<Rightarrow> bool" where
  "has_status st x \<longleftrightarrow> pth_status x = st"

section \<open>Properties\<close>

subsection \<open>The side table\<close>

lemma atom_cases: "(a::uint8_t) \<le> 3 \<Longrightarrow> a = 0 \<or> a = 1 \<or> a = 2 \<or> a = 3"
  by (auto simp: word_le_nat_alt unat_eq_nat_uint[symmetric] dest!: le_imp_less_Suc intro: word_unat_eq_iff[THEN iffD2] simp: less_Suc_eq word_unat_eq_iff)

text \<open>
  C4. For two 2-bit atoms, \<open>is_same_side_as_pth\<close> answers: different when the other atom
  is Opposite; same when it is Same; otherwise different when the PTH atom is Opposite;
  otherwise same when the PTH atom is Same; otherwise same exactly when the two absolute
  atoms are equal.
\<close>

theorem is_same_side_table:
  assumes "pth_atomic_side s \<le> 3" and "other \<le> 3"
  shows "is_same_side_as_pth s other =
     (if other = PTH_ATOM_OPPOSITE then False
      else if other = PTH_ATOM_SAME then True
      else if pth_atomic_side s = PTH_ATOM_OPPOSITE then False
      else if pth_atomic_side s = PTH_ATOM_SAME then True
      else pth_atomic_side s = other)"
  using atom_cases[OF assms(1)] atom_cases[OF assms(2)]
  by (auto simp: is_same_side_as_pth_def truth_table_def PTH_ATOM_OPPOSITE_def PTH_ATOM_SAME_def)

theorem is_same_side_table_witness:
  "pth_atomic_side (init_state\<lparr>pth_atomic_side := PTH_ATOM_RIGHT\<rparr>) \<le> 3 \<and> PTH_ATOM_LEFT \<le> 3
   \<and> \<not> is_same_side_as_pth (init_state\<lparr>pth_atomic_side := PTH_ATOM_RIGHT\<rparr>) PTH_ATOM_LEFT"
  using is_same_side_table[of "init_state\<lparr>pth_atomic_side := PTH_ATOM_RIGHT\<rparr>" PTH_ATOM_LEFT]
  by (simp add: PTH_ATOM_RIGHT_def PTH_ATOM_LEFT_def PTH_ATOM_OPPOSITE_def PTH_ATOM_SAME_def)

subsection \<open>The recursion guard\<close>

text \<open>
  C8. While \<open>is_processing_record_due_to_pth\<close> is set, \<open>process_record_predictive_tap_hold\<close>
  returns true and the state it returns is the state it was given, every variable included.
\<close>

theorem reentrant_event_ignored:
  assumes "is_processing_record_due_to_pth s"
  shows "process_record_predictive_tap_hold c e h keycode record cur_time elapsed_now s
         = Inr (True, s)"
  using assms by (simp add: process_record_predictive_tap_hold_def)

theorem reentrant_event_ignored_witness:
  "is_processing_record_due_to_pth (init_state\<lparr>is_processing_record_due_to_pth := True\<rparr>)
   \<and> process_record_predictive_tap_hold example_config example_env example_hooks LCTL_T_A
        (key_at 0 True) 100 100 (init_state\<lparr>is_processing_record_due_to_pth := True\<rparr>)
      = Inr (True, init_state\<lparr>is_processing_record_due_to_pth := True\<rparr>)"
  using reentrant_event_ignored[of "init_state\<lparr>is_processing_record_due_to_pth := True\<rparr>"
      example_config example_env example_hooks LCTL_T_A "key_at 0 True" 100 100]
  by simp

subsection \<open>A full release cache\<close>

lemma add_release_record_full:
  "used_release_records_bitmask s = 0xFF \<Longrightarrow>
   add_release_record record release_time s
   = Inl (Undefined_ctz_of_zero, emit (Process_record record) s)"
  by (simp add: add_release_record_def)

text \<open>
  C2. With all eight slots of the release cache in use, \<open>add_release_record\<close> hands the
  record to \<^verbatim>\<open>process_record\<close> and, having no \<^verbatim>\<open>return\<close> there, goes on to
  \<^verbatim>\<open>__builtin_ctz(0)\<close> and the stores that follow it. On the concrete keyboard, the ninth
  release that arrives while the mod-tap is undecided ends the run in that error, after
  the record has been sent on.
\<close>

theorem release_cache_overflow_falls_through:
  "(case run example_config example_env example_hooks overflow_inputs init_state of
      Inl (err, s) \<Rightarrow> err = Undefined_ctz_of_zero \<and> used_release_records_bitmask s = 0xFF
                      \<and> last (out s) = Process_record (key_at 9 False)
    | Inr s \<Rightarrow> False)"
  by code_simp

subsection \<open>Fast-streak eligibility\<close>

text \<open>
  C9, as stated, fails: with right Alt as the only active modifier the default predicate
  still accepts the letter A.
\<close>

theorem fast_streak_right_alt_counterexample:
  "get_mods example_ralt_env init_state AND NOT MOD_MASK_SHIFT \<noteq> 0
   \<and> pth_is_fast_streak_tap_key example_ralt_env init_state KC_A"
  by code_simp

text \<open>
  C9, amended. The default \<open>pth_is_fast_streak_tap_key\<close> returns false for every keycode
  whenever a Ctrl, a GUI or the left Alt modifier is active; when the active modifiers are
  among the Shifts and right Alt, it answers as it does with no modifier active.
\<close>

theorem fast_streak_blocking_mods:
  "(get_mods e s AND (MOD_MASK_CG OR MOD_BIT_LALT) \<noteq> 0
      \<longrightarrow> \<not> pth_is_fast_streak_tap_key e s keycode)
   \<and> (get_mods e s AND NOT (MOD_MASK_SHIFT OR MOD_BIT_RALT) = 0
      \<longrightarrow> pth_is_fast_streak_tap_key e s keycode
          = pth_is_fast_streak_tap_key (e\<lparr>get_mods := (\<lambda>s. 0)\<rparr>) s keycode)"
proof -
  have "NOT (MOD_MASK_SHIFT OR MOD_BIT_RALT) = MOD_MASK_CG OR MOD_BIT_LALT"
    by (simp add: MOD_MASK_SHIFT_def MOD_BIT_RALT_def MOD_MASK_CG_def MOD_BIT_LALT_def)
  then show ?thesis by (simp add: pth_is_fast_streak_tap_key_def)
qed

theorem fast_streak_blocking_mods_witness:
  "get_mods example_lctl_env init_state AND (MOD_MASK_CG OR MOD_BIT_LALT) \<noteq> 0
   \<and> \<not> pth_is_fast_streak_tap_key example_lctl_env init_state KC_A"
proof -
  have h: "get_mods example_lctl_env init_state AND (MOD_MASK_CG OR MOD_BIT_LALT) \<noteq> 0"
    by (simp add: example_lctl_env_def MOD_LCTL_def MOD_MASK_CG_def MOD_BIT_LALT_def)
  with fast_streak_blocking_mods[of example_lctl_env init_state KC_A] show ?thesis by simp
qed

subsection \<open>Frames of the two loops\<close>

lemma remove_pos_loop_frame_ex:
  "\<exists>m. snd (remove_pos_loop pos w s) = s\<lparr>used_release_as_tap_positions_bitmask := m\<rparr>"
proof (induction pos w s rule: remove_pos_loop.induct)
  case (1 pos w s)
  show ?case
  proof (cases "w \<noteq> 0")
    case nz: True
    show ?thesis
    proof (cases "keypos_eq (release_as_tap_positions s ! builtin_ctz w) pos")
      case True
      with nz have "snd (remove_pos_loop pos w s) = s\<lparr>used_release_as_tap_positions_bitmask :=
          clear_bit (used_release_as_tap_positions_bitmask s) (builtin_ctz w)\<rparr>"
        by (subst remove_pos_loop.simps) (simp add: Let_def)
      then show ?thesis by (rule exI)
    next
      case False
      with nz have "remove_pos_loop pos w s = remove_pos_loop pos (clear_bit w (builtin_ctz w)) s"
        by (subst remove_pos_loop.simps) (simp add: Let_def)
      with 1[OF nz refl False] show ?thesis by simp
    qed
  next
    case False
    then have "snd (remove_pos_loop pos w s)
        = s\<lparr>used_release_as_tap_positions_bitmask := used_release_as_tap_positions_bitmask s\<rparr>"
      by (subst remove_pos_loop.simps) simp
    then show ?thesis by (rule exI)
  qed
qed

lemma remove_pos_loop_frame:
  "snd (remove_pos_loop pos w s)
   = s\<lparr>used_release_as_tap_positions_bitmask := tap_mask_after pos w s\<rparr>"
proof -
  obtain m where "snd (remove_pos_loop pos w s) = s\<lparr>used_release_as_tap_positions_bitmask := m\<rparr>"
    using remove_pos_loop_frame_ex by (rule exE)
  then show ?thesis by (simp add: tap_mask_after_def)
qed

lemma release_loop_frame_ex:
  "\<exists>acts. release_loop w b s = (b \<or> w \<noteq> 0, s\<lparr>out := out s @ acts,
      is_processing_record_due_to_pth :=
        (if w = 0 then is_processing_record_due_to_pth s else False)\<rparr>)"
proof (induction w b s rule: release_loop.induct)
  case (1 w b s)
  show ?case
  proof (cases "w = 0")
    case True
    have "release_loop w b s = (b, s)" using True by (subst release_loop.simps) simp
    then have "release_loop w b s = (b \<or> w \<noteq> 0, s\<lparr>out := out s @ [],
      is_processing_record_due_to_pth :=
        (if w = 0 then is_processing_record_due_to_pth s else False)\<rparr>)"
      using True by simp
    then show ?thesis by (rule exI)
  next
    case False
    define s1 where "s1 = (if \<not> b then send_and_wait s else s)"
    define s2 where "s2 = process_record_with_new_time (release_records s1 ! builtin_ctz w) s1"
    define w' where "w' = clear_bit w (builtin_ctz w)"
    have eq: "release_loop w b s = release_loop w' True s2"
      using False by (subst release_loop.simps) (simp add: Let_def s1_def s2_def w'_def)
    from 1[OF False refl refl refl refl]
    have "\<exists>acts. release_loop w' True s2 = (True \<or> w' \<noteq> 0, s2\<lparr>out := out s2 @ acts,
        is_processing_record_due_to_pth :=
          (if w' = 0 then is_processing_record_due_to_pth s2 else False)\<rparr>)"
      by (simp only: s1_def s2_def w'_def)
    then obtain acts where a: "release_loop w' True s2 = (True \<or> w' \<noteq> 0,
        s2\<lparr>out := out s2 @ acts, is_processing_record_due_to_pth :=
          (if w' = 0 then is_processing_record_due_to_pth s2 else False)\<rparr>)"
      by (rule exE)
    have s2: "s2 = s\<lparr>out := out s @ drop (length (out s)) (out s2),
        is_processing_record_due_to_pth := False\<rparr>"
      by (simp add: s2_def s1_def process_record_with_new_time_def send_and_wait_def emit_def
          Let_def)
    have "release_loop w b s = (b \<or> w \<noteq> 0,
        s\<lparr>out := out s @ (drop (length (out s)) (out s2) @ acts),
          is_processing_record_due_to_pth :=
            (if w = 0 then is_processing_record_due_to_pth s else False)\<rparr>)"
      unfolding eq a using False by (subst (1 2 3) s2) simp
    then show ?thesis by (rule exI)
  qed
qed

lemma release_loop_frame:
  "snd (release_loop w b s) = s\<lparr>out := out s @ release_loop_acts w b s,
      is_processing_record_due_to_pth :=
        (if w = 0 then is_processing_record_due_to_pth s else False)\<rparr>"
proof -
  obtain acts where "release_loop w b s = (b \<or> w \<noteq> 0, s\<lparr>out := out s @ acts,
      is_processing_record_due_to_pth :=
        (if w = 0 then is_processing_record_due_to_pth s else False)\<rparr>)"
    using release_loop_frame_ex by (rule exE)
  then show ?thesis by (simp add: release_loop_acts_def)
qed

lemma release_loop_fst: "fst (release_loop w b s) = (b \<or> w \<noteq> 0)"
proof -
  obtain acts where "release_loop w b s = (b \<or> w \<noteq> 0, s\<lparr>out := out s @ acts,
      is_processing_record_due_to_pth :=
        (if w = 0 then is_processing_record_due_to_pth s else False)\<rparr>)"
    using release_loop_frame_ex by (rule exE)
  then show ?thesis by simp
qed

lemma release_loop_acts_0: "release_loop_acts 0 b s = []"
  by (subst release_loop_acts_def, subst release_loop.simps) simp

lemmas loop_frames = remove_pos_loop_frame release_loop_frame release_loop_fst

lemmas emit_defs = emit_def process_record_with_new_time_def send_and_wait_def tap_code16_def
  process_register_record_def process_unregister_record_def
  process_register_record_as_hold_def process_unregister_record_as_hold_def
  process_register_record_as_tap_def process_unregister_record_as_tap_def
  on_pth_record_def on_second_record_def set_record_to_tap_def set_record_to_hold_def

subsection \<open>A decision is final\<close>

lemma decided_cases:
  "status_num st \<ge> status_num PTH_DECIDED_TAP \<Longrightarrow> st = PTH_DECIDED_TAP \<or> st = PTH_DECIDED_HOLD"
  by (cases st) simp_all

lemma decided_decisions:
  assumes "status_num (pth_status s) \<ge> status_num PTH_DECIDED_TAP"
  shows "make_decision_tap e h s = s" and "make_decision_hold e h s = s"
  using assms by (simp_all add: make_decision_tap_def make_decision_hold_def)

lemma decided_housekeeping:
  assumes "status_num (pth_status s) \<ge> status_num PTH_DECIDED_TAP"
  shows "pth_status (housekeeping_task_predictive_tap_hold c e h cur_time s) = pth_status s"
  using assms
  by (simp add: housekeeping_task_predictive_tap_hold_def housekeeping_timers_def Let_def)

lemma collect_status:
  "pth_status (collect_new_press_to_press_and_overlap_duration p t s) = pth_status s"
  by (simp add: collect_new_press_to_press_and_overlap_duration_def Let_def)

lemma by_reset:
  "pth_status s0 = st \<Longrightarrow>
   \<exists>s1. pth_status s1 = st \<and> reset_pth_state s0 = reset_pth_state s1
        \<and> pth_status (reset_pth_state s0) = PTH_IDLE"
  by (rule exI[of _ s0]) (simp add: reset_pth_state_def)

lemma decided_dispatch:
  assumes "status_num (pth_status s) \<ge> status_num PTH_DECIDED_TAP"
  shows "case process_record_predictive_tap_hold c e h keycode record cur_time elapsed_now s of
           Inl err \<Rightarrow> False
         | Inr (b, s') \<Rightarrow> pth_status s' = pth_status s
              \<or> (\<exists>s0. pth_status s0 = pth_status s \<and> s' = reset_pth_state s0
                        \<and> pth_status s' = PTH_IDLE)"
proof -
  from decided_cases[OF assms] show ?thesis
  proof
    assume st: "pth_status s = PTH_DECIDED_TAP"
    show ?thesis
      by (simp add: process_record_predictive_tap_hold_def state_machine_def st collect_status
          decided_tap_case_def pass_through_def Let_def case_prod_beta loop_frames
          remove_pos_from_tap_releases_def emit_defs add_pos_to_tap_releases_def by_reset
          split: bool.splits)
  next
    assume st: "pth_status s = PTH_DECIDED_HOLD"
    show ?thesis
      by (simp add: process_record_predictive_tap_hold_def state_machine_def st collect_status
          decided_hold_case_def pass_through_def Let_def case_prod_beta loop_frames
          remove_pos_from_tap_releases_def emit_defs add_pos_to_tap_releases_def
          unregister_pth_hold_def by_reset
          split: bool.splits)
  qed
qed

text \<open>
  C10. Once the status is \<open>PTH_DECIDED_TAP\<close> or \<open>PTH_DECIDED_HOLD\<close>, \<open>make_decision_tap\<close>
  and \<open>make_decision_hold\<close> return the state unchanged (no status change, nothing sent);
  the housekeeping task keeps the status; and an event either keeps the status or ends
  in a state produced by \<open>reset_pth_state\<close>, whose status is \<open>PTH_IDLE\<close>.
\<close>

theorem decision_is_final:
  assumes "status_num (pth_status s) \<ge> status_num PTH_DECIDED_TAP"
  shows "make_decision_tap e h s = s \<and> make_decision_hold e h s = s
     \<and> pth_status (housekeeping_task_predictive_tap_hold c e h tick_time s) = pth_status s
     \<and> (case process_record_predictive_tap_hold c e h keycode record cur_time elapsed_now s of
           Inl err \<Rightarrow> False
         | Inr (b, s') \<Rightarrow> pth_status s' = pth_status s
              \<or> (\<exists>s0. pth_status s0 = pth_status s \<and> s' = reset_pth_state s0
                        \<and> pth_status s' = PTH_IDLE))"
  using decided_decisions[OF assms, of e h] decided_housekeeping[OF assms, of c e h tick_time]
    decided_dispatch[OF assms, of c e h keycode "record" cur_time elapsed_now]
  by simp

theorem decision_is_final_witness:
  "status_num (pth_status example_held_state) \<ge> status_num PTH_DECIDED_TAP
   \<and> pth_status example_held_state = PTH_DECIDED_HOLD
   \<and> make_decision_tap example_env example_hooks example_held_state = example_held_state
   \<and> make_decision_hold example_env example_hooks example_held_state = example_held_state"
proof -
  have st: "pth_status example_held_state = PTH_DECIDED_HOLD" by code_simp
  then have h: "status_num (pth_status example_held_state) \<ge> status_num PTH_DECIDED_TAP" by simp
  from decision_is_final[OF h, of example_env example_hooks example_config 0 LCTL_T_A
      "key_at 0 False" 0 0] st h
  show ?thesis by simp
qed

subsection \<open>Idle and the active record\<close>

text \<open>
  C5. The status is \<open>PTH_IDLE\<close> exactly when there is no active PTH record. The code breaks
  this when a forced tap at press resets the state at once: the press handler tests only
  for a decided status, carries on with the fast-streak check on the reset state, and
  \<open>make_decision_tap\<close> then sets \<open>PTH_DECIDED_TAP\<close> with no keycode and the empty position,
  sending a record for position (255, 255).
\<close>

theorem decided_tap_without_pth_record:
  "(case run reset_streak_config example_env decide_on_press_as_tap_hooks
           [Key_event KC_A (key_at 1 True) 50 50, Key_event LCTL_T_A (key_at 0 True) 100 100]
           init_state of
      Inl err \<Rightarrow> False
    | Inr s \<Rightarrow> pth_status s = PTH_DECIDED_TAP \<and> pth_keycode s = KC_NO
               \<and> key (pth_record s) = EMPTY_KEYPOS
               \<and> last (out s) = Process_record \<lparr>key = EMPTY_KEYPOS, pressed = True,
                    ev_type = KEY_EVENT, tap_interrupted = True, tap_count = 1\<rparr>)"
  by code_simp

subsection \<open>The forced choice at press\<close>

text \<open>
  C3, as stated, fails for a negative timeout: with the timeout \<open>-1\<close> and a policy that
  would choose hold, the press leaves the key undecided, and no later housekeeping call
  forces a choice either.
\<close>

theorem negative_timeout_counterexample:
  "(case run example_config example_env never_force_hooks
           [Key_event LCTL_T_A (key_at 0 True) 100 100] init_state of
      Inl err \<Rightarrow> False
    | Inr s \<Rightarrow> sint (timeout_for_forcing_choice s) \<le> 0
               \<and> hk_get_forced_choice_after_timeout never_force_hooks s = PTH_DECIDED_HOLD
               \<and> pth_status s = PTH_PRESSED \<and> \<not> has_chosen_after_timeout_reached s)
   \<and> (case run example_config example_env never_force_hooks
           [Key_event LCTL_T_A (key_at 0 True) 100 100, Tick 200, Tick 3000, Tick 30000]
           init_state of
      Inl err \<Rightarrow> False
    | Inr s \<Rightarrow> pth_status s = PTH_PRESSED \<and> \<not> has_chosen_after_timeout_reached s)"
  by code_simp

subsection \<open>The predicted overlap\<close>

text \<open>
  C6, as stated, fails in two ways. First run: the layer-tap in column 0 is held
  instantly, and the second key, on the other hand, resolves to \<open>KC_NO\<close> on the layer that
  became active. The handler commits tap and returns before any overlap is predicted, so
  the stored value is 0, not the clamped prediction 80. Second run: with
  \<^verbatim>\<open>PTH_RESET_IMMEDIATELY_WHEN_TAP_CHOSEN\<close> and a hook that chooses tap for every
  second key on the same side, a second mod-tap on the same side has the clamped
  prediction stored, tap chosen and the state reset in the same call, which puts the
  stored value back to 0.
\<close>

theorem min_overlap_no_keycode_counterexample:
  "(case run example_config example_env example_hooks
           [Key_event LT_1_A (key_at 0 True) 100 100, Key_event KC_NO (key_at 7 True) 150 150]
           init_state of
      Inl err \<Rightarrow> False
    | Inr s \<Rightarrow> \<not> second_is_same_side_as_pth s
               \<and> pth_status s = PTH_DECIDED_TAP
               \<and> hk_predict_min_overlap_for_hold_in_ms example_hooks s = 80
               \<and> min_overlap_dur_for_hold s = 0
               \<and> min_overlap_dur_for_hold s
                  \<noteq> word_of_int (min PTH_MS_MAX_OVERLAP (max PTH_MS_MIN_OVERLAP
                       (uint (hk_predict_min_overlap_for_hold_in_ms example_hooks s)))))
   \<and> (case run reset_on_tap_config example_env same_side_tap_hooks
           [Key_event LCTL_T_A (key_at 0 True) 100 100, Key_event LSFT_T_B (key_at 1 True) 150 150]
           init_state of
      Inl err \<Rightarrow> False
    | Inr s \<Rightarrow> pth_is_tap_hold_keycode LSFT_T_B
               \<and> pth_status s = PTH_IDLE
               \<and> hk_predict_min_overlap_for_hold_in_ms same_side_tap_hooks s = 80
               \<and> min_overlap_dur_for_hold s = 0
               \<and> min_overlap_dur_for_hold s
                  \<noteq> word_of_int (min PTH_MS_MAX_OVERLAP (max PTH_MS_MIN_OVERLAP
                       (uint (hk_predict_min_overlap_for_hold_in_ms same_side_tap_hooks s)))))"
  by code_simp

subsection \<open>Durations given to the predictors\<close>

text \<open>
  C7, as stated, fails. A plain key is tapped, housekeeping runs at 4105 ms, and the
  mod-tap is pressed at 4107 ms before housekeeping runs again: the release timer has not
  been marked as exceeded, and the duration from the last release to the press is stored
  as 4097. On the very first press after start-up, the older press-to-press duration
  handed to the predictors is the initial \<open>-1\<close>.
\<close>

theorem duration_above_max_counterexample:
  "(case run example_config example_env example_hooks
           [Tick 0, Key_event KC_A (key_at 1 True) 0 0, Tick 10,
            Key_event KC_A (key_at 1 False) 10 10, Tick 4105,
            Key_event LCTL_T_A (key_at 0 True) 4107 4107]
           (keyboard_post_init_predictive_tap_hold 0 init_state) of
      Inl err \<Rightarrow> False
    | Inr s \<Rightarrow> pth_status s = PTH_PRESSED
               \<and> key_release_before_pth_to_pth_press_dur s = 4097
               \<and> \<not> key_release_before_pth_to_pth_press_dur s \<le> MS_MAX_DUR_FOR_TIMERS)
   \<and> (case run example_config example_env example_hooks
           [Tick 50, Key_event LCTL_T_A (key_at 0 True) 50 50]
           (keyboard_post_init_predictive_tap_hold 0 init_state) of
      Inl err \<Rightarrow> False
    | Inr s \<Rightarrow> pth_status s = PTH_PRESSED
               \<and> sint (pth_prev_prev_press_to_prev_press_dur s) = - 1)"
  by code_simp

subsection \<open>Frames of the decisions\<close>

lemma decision_core_upd [simp]:
  "decision_core (s\<lparr>pth_status := a\<rparr>) = decision_core s"
  "decision_core (s\<lparr>out := b\<rparr>) = decision_core s"
  "decision_core (s\<lparr>is_processing_record_due_to_pth := c\<rparr>) = decision_core s"
  "decision_core (s\<lparr>second_keycode := d\<rparr>) = decision_core s"
  "decision_core (s\<lparr>second_is_tap_hold := f\<rparr>) = decision_core s"
  "decision_core (s\<lparr>pth_record := g\<rparr>) = decision_core s"
  "decision_core (s\<lparr>second_record := i\<rparr>) = decision_core s"
  "decision_core (s\<lparr>used_release_records_bitmask := j\<rparr>) = decision_core s"
  "decision_core (s\<lparr>release_as_tap_positions := k\<rparr>) = decision_core s"
  "decision_core (s\<lparr>used_release_as_tap_positions_bitmask := l\<rparr>) = decision_core s"
  by (simp_all add: decision_core_def)

lemma decision_core_prims [simp]:
  "decision_core (emit a s) = decision_core s"
  "decision_core (send_and_wait s) = decision_core s"
  "decision_core (tap_code16 kc s) = decision_core s"
  "decision_core (process_record_with_new_time r s) = decision_core s"
  "decision_core (on_pth_record process_register_record_as_tap s) = decision_core s"
  "decision_core (on_pth_record process_unregister_record_as_tap s) = decision_core s"
  "decision_core (on_pth_record process_register_record_as_hold s) = decision_core s"
  "decision_core (on_pth_record process_unregister_record_as_hold s) = decision_core s"
  "decision_core (on_second_record process_register_record s) = decision_core s"
  "decision_core (on_second_record process_unregister_record s) = decision_core s"
  "decision_core (on_second_record process_register_record_as_hold s) = decision_core s"
  "decision_core (on_second_record process_unregister_record_as_hold s) = decision_core s"
  "decision_core (add_pos_to_tap_releases p s) = decision_core s"
  "decision_core (snd (release_loop w b s)) = decision_core s"
  by (simp_all add: emit_defs add_pos_to_tap_releases_def Let_def release_loop_frame)

lemma decision_core_release [simp]:
  "decision_core (snd (process_release_records rt b s)) = decision_core s"
  "decision_core (snd (process_release_records_and_wait_before_first rt s)) = decision_core s"
  by (simp_all add: process_release_records_def
      process_release_records_and_wait_before_first_def Let_def)

lemma decision_core_register [simp]:
  "decision_core (register_pth_hold e s) = decision_core s"
  "decision_core (unregister_pth_hold s) = decision_core s"
  by (simp_all add: register_pth_hold_def unregister_pth_hold_def Let_def)

lemma core_LetI:
  "decision_core a = decision_core s \<Longrightarrow> (\<And>x. decision_core (f x) = decision_core x)
   \<Longrightarrow> decision_core (Let a f) = decision_core s"
  by (simp add: Let_def)

lemma core_ifI:
  "decision_core a = decision_core s \<Longrightarrow> decision_core b = decision_core s
   \<Longrightarrow> decision_core (if c then a else b) = decision_core s"
  by simp

lemma core_prodI:
  "(\<And>w x. decision_core (f w x) = decision_core x) \<Longrightarrow> decision_core (snd p) = decision_core s
   \<Longrightarrow> decision_core (case_prod f p) = decision_core s"
  by (simp add: case_prod_beta)

lemma decision_core_tap: "decision_core (make_decision_tap e h s) = decision_core s"
  unfolding make_decision_tap_def
  apply (intro core_LetI core_ifI)
             apply simp_all
  apply (rule core_prodI)
   apply (intro core_LetI core_ifI)
     apply simp_all
  done

lemma decision_core_hold: "decision_core (make_decision_hold e h s) = decision_core s"
  unfolding make_decision_hold_def
  apply (intro core_LetI core_ifI)
             apply simp_all
  apply (rule core_prodI)
   apply (intro core_LetI core_ifI)
     apply simp_all
  done

lemma decision_core_eqD:
  "decision_core s' = decision_core s \<Longrightarrow>
   s' = s\<lparr>pth_status := pth_status s', out := out s',
         is_processing_record_due_to_pth := is_processing_record_due_to_pth s',
         second_keycode := second_keycode s', second_is_tap_hold := second_is_tap_hold s',
         pth_record := pth_record s', second_record := second_record s',
         used_release_records_bitmask := used_release_records_bitmask s',
         release_as_tap_positions := release_as_tap_positions s',
         used_release_as_tap_positions_bitmask := used_release_as_tap_positions_bitmask s'\<rparr>"
  by (cases s, cases s') (simp add: decision_core_def)

lemma make_decision_tap_frame:
  "make_decision_tap e h s = s\<lparr>pth_status := pth_status (tap_effect e h s),
         out := out (tap_effect e h s),
         is_processing_record_due_to_pth := is_processing_record_due_to_pth (tap_effect e h s),
         second_keycode := second_keycode (tap_effect e h s),
         second_is_tap_hold := second_is_tap_hold (tap_effect e h s),
         pth_record := pth_record (tap_effect e h s),
         second_record := second_record (tap_effect e h s),
         used_release_records_bitmask := used_release_records_bitmask (tap_effect e h s),
         release_as_tap_positions := release_as_tap_positions (tap_effect e h s),
         used_release_as_tap_positions_bitmask :=
           used_release_as_tap_positions_bitmask (tap_effect e h s)\<rparr>"
  unfolding tap_effect_def by (rule decision_core_eqD[OF decision_core_tap])

lemma make_decision_hold_frame:
  "make_decision_hold e h s = s\<lparr>pth_status := pth_status (hold_effect e h s),
         out := out (hold_effect e h s),
         is_processing_record_due_to_pth := is_processing_record_due_to_pth (hold_effect e h s),
         second_keycode := second_keycode (hold_effect e h s),
         second_is_tap_hold := second_is_tap_hold (hold_effect e h s),
         pth_record := pth_record (hold_effect e h s),
         second_record := second_record (hold_effect e h s),
         used_release_records_bitmask := used_release_records_bitmask (hold_effect e h s),
         release_as_tap_positions := release_as_tap_positions (hold_effect e h s),
         used_release_as_tap_positions_bitmask :=
           used_release_as_tap_positions_bitmask (hold_effect e h s)\<rparr>"
  unfolding hold_effect_def by (rule decision_core_eqD[OF decision_core_hold])

lemma keeps_LetI:
  "keeps st s0 a \<Longrightarrow> (\<And>x. keeps st s0 x \<Longrightarrow> keeps st s0 (f x)) \<Longrightarrow> keeps st s0 (Let a f)"
  by (simp add: Let_def)

lemma keeps_ifI:
  "keeps st s0 a \<Longrightarrow> keeps st s0 b \<Longrightarrow> keeps st s0 (if c then a else b)"
  by simp

lemma keeps_prodI:
  "keeps st s0 (snd p) \<Longrightarrow> (\<And>w x. keeps st s0 x \<Longrightarrow> keeps st s0 (f w x))
   \<Longrightarrow> keeps st s0 (case_prod f p)"
  by (simp add: case_prod_beta)

lemma keeps_prims:
  assumes "keeps st s0 s"
  shows "keeps st s0 (emit a s)"
    "keeps st s0 (send_and_wait s)"
    "keeps st s0 (tap_code16 kc s)"
    "keeps st s0 (process_record_with_new_time r s)"
    "keeps st s0 (on_pth_record process_register_record_as_tap s)"
    "keeps st s0 (on_pth_record process_unregister_record_as_tap s)"
    "keeps st s0 (on_pth_record process_register_record_as_hold s)"
    "keeps st s0 (on_pth_record process_unregister_record_as_hold s)"
    "keeps st s0 (on_second_record process_register_record s)"
    "keeps st s0 (on_second_record process_unregister_record s)"
    "keeps st s0 (on_second_record process_register_record_as_hold s)"
    "keeps st s0 (on_second_record process_unregister_record_as_hold s)"
    "keeps st s0 (add_pos_to_tap_releases p s)"
    "keeps st s0 (snd (release_loop w b s))"
    "keeps st s0 (s\<lparr>second_keycode := kc\<rparr>)"
    "keeps st s0 (s\<lparr>second_is_tap_hold := th\<rparr>)"
    "keeps st s0 (s\<lparr>second_record := set_record_to_tap (second_record s)\<rparr>)"
    "keeps st s0 (s\<lparr>second_record := set_record_to_hold (second_record s)\<rparr>)"
  using assms
  by (simp_all add: keeps_def emit_defs add_pos_to_tap_releases_def Let_def release_loop_frame)

lemma keeps_release:
  assumes "keeps st s0 s"
  shows "keeps st s0 (snd (process_release_records rt b s))"
    "keeps st s0 (snd (process_release_records_and_wait_before_first rt s))"
  using assms
  by (simp_all add: process_release_records_def keeps_def release_loop_frame
      process_release_records_and_wait_before_first_def Let_def)

lemma keeps_register:
  assumes "keeps st s0 s"
  shows "keeps st s0 (register_pth_hold e s)" "keeps st s0 (unregister_pth_hold s)"
  using assms
  by (simp_all add: register_pth_hold_def unregister_pth_hold_def Let_def keeps_def emit_defs)

lemmas keeps_steps = keeps_prims keeps_release keeps_register

lemma keeps_tap:
  assumes "status_num (pth_status s) < status_num PTH_DECIDED_TAP"
    and "\<not> is_processing_record_due_to_pth s"
  shows "keeps PTH_DECIDED_TAP s (make_decision_tap e h s)"
  unfolding make_decision_tap_def using assms
  apply (simp del: Let_def)
  apply (intro keeps_LetI keeps_ifI)
             apply (simp_all add: keeps_steps)
   apply (simp add: keeps_def)
  apply (rule keeps_prodI)
   apply (simp add: keeps_steps)
  apply (intro keeps_LetI keeps_ifI)
    apply (simp_all add: keeps_steps)
  done

lemma keyevent_not_combo: "IS_KEYEVENT r \<Longrightarrow> \<not> IS_COMBOEVENT r"
  by (simp add: IS_KEYEVENT_def IS_COMBOEVENT_def)

lemma passes_guardsD:
  assumes "passes_guards c e s keycode record"
  shows "is_processing_record_due_to_pth s = False" "IS_KEYEVENT record = True"
    "(TAPPING_TERM_PER_KEY c \<and> get_tapping_term e s keycode record \<noteq> 0) = False"
    "(TAP_DANCE_ENABLE c \<and> IS_QK_TAP_DANCE keycode) = False"
    "IS_COMBOEVENT record = False"
  using assms by (auto simp: passes_guards_def keyevent_not_combo)

lemma dispatch_press:
  assumes "passes_guards c e s keycode record" and "pressed record"
  shows "process_record_predictive_tap_hold c e h keycode record cur_time elapsed_now s
     = state_machine c e h keycode record cur_time elapsed_now
         ((collect_new_press_to_press_and_overlap_duration True cur_time s)
            \<lparr>prev_press_keycode :=
               cur_press_keycode (collect_new_press_to_press_and_overlap_duration True cur_time s),
             cur_press_keycode := keycode\<rparr>)"
  using assms(2)
  by (simp add: process_record_predictive_tap_hold_def passes_guardsD[OF assms(1)] Let_def)

lemma tap_chosen_reset_cases:
  "tap_chosen_reset c s = s \<or> pth_status (tap_chosen_reset c s) = PTH_IDLE"
  by (simp add: tap_chosen_reset_def reset_pth_state_def)

lemma min_overlap_through_tap:
  "pth_status (tap_chosen_reset c (make_decision_tap e h s)) \<noteq> PTH_IDLE \<Longrightarrow>
   min_overlap_dur_for_hold (tap_chosen_reset c (make_decision_tap e h s)) = min_overlap_dur_for_hold s
   \<and> second_is_same_side_as_pth (tap_chosen_reset c (make_decision_tap e h s)) = second_is_same_side_as_pth s"
  using tap_chosen_reset_cases[of c "make_decision_tap e h s"]
  by (auto simp: make_decision_tap_frame)

subsection \<open>The second press and the press of the tap-hold key\<close>


lemma through_tap_reset:
  assumes "pth_status (tap_chosen_reset c (make_decision_tap e h s)) \<noteq> PTH_IDLE"
  shows "min_overlap_dur_for_hold (tap_chosen_reset c (make_decision_tap e h s))
         = min_overlap_dur_for_hold s"
    and "second_is_same_side_as_pth (tap_chosen_reset c (make_decision_tap e h s))
         = second_is_same_side_as_pth s"
  using min_overlap_through_tap[OF assms] by simp_all

lemma second_press_decide_min_overlap:
  assumes nk: "\<not> (pth_was_held_instantly s \<and> instant_layer_was_active s \<and> second_keycode s = KC_NO)"
  shows "case second_press_decide c e h s of
           Inl err \<Rightarrow> False
         | Inr (b, s') \<Rightarrow>
             (second_is_tap_hold s \<or> \<not> second_is_same_side_as_pth s)
             \<and> pth_status s' \<noteq> PTH_IDLE
             \<longrightarrow> min_overlap_dur_for_hold s'
                 = clamp_overlap (hk_predict_min_overlap_for_hold_in_ms h s)"
proof -
  define v where "v = hk_predict_min_overlap_for_hold_in_ms h s"
  define s3 where "s3 = (if second_is_tap_hold s \<or> \<not> second_is_same_side_as_pth s
                 then s\<lparr>min_overlap_dur_for_hold := clamp_overlap v\<rparr> else s)"
  have s3: "second_is_same_side_as_pth s3 = second_is_same_side_as_pth s"
    "second_is_tap_hold s3 = second_is_tap_hold s"
    "second_is_tap_hold s \<or> \<not> second_is_same_side_as_pth s
       \<Longrightarrow> min_overlap_dur_for_hold s3 = clamp_overlap v"
    by (simp_all add: s3_def)
  have d: "second_press_decide c e h s =
      (if \<not> second_is_same_side_as_pth s3 then Inr (False, s3)
       else if hk_should_choose_tap_when_second_is_same_side_press h s3
       then Inr (False, tap_chosen_reset c (make_decision_tap e h s3))
       else if second_is_tap_hold s3
               \<and> hk_second_should_hold_instantly h s3 (second_keycode s3) (second_record s3)
       then
         let s = (if \<not> instant_layer_was_active s3 \<and> IS_QK_LAYER_TAP (second_keycode s3)
                  then
                    let s = s3\<lparr>layer_before_instant_layer_tap :=
                                layer_switch_get_layer e s3 (key (second_record s3))\<rparr>
                    in s\<lparr>instant_layer_was_active := True\<rparr>
                  else s3);
             s = s\<lparr>second_was_held_instantly := True\<rparr>
         in Inr (False, on_second_record process_register_record_as_hold s)
       else Inr (False, s3))"
  proof -
    have nk': "(pth_was_held_instantly s \<and> instant_layer_was_active s
                \<and> second_keycode s = KC_NO) = False"
      using nk by simp
    show ?thesis
      unfolding second_press_decide_def s3_def clamp_overlap_def v_def
      by (simp add: nk' Let_def)
  qed
  show ?thesis
    unfolding d v_def[symmetric] using s3
    by (auto simp add: Let_def emit_defs through_tap_reset)
qed

lemma second_press_capture_fields:
  "pth_was_held_instantly (second_press_capture h keycode record cur_time s) = pth_was_held_instantly s"
  "instant_layer_was_active (second_press_capture h keycode record cur_time s) = instant_layer_was_active s"
  "second_keycode (second_press_capture h keycode record cur_time s) = keycode"
  "second_is_tap_hold (second_press_capture h keycode record cur_time s) = pth_is_tap_hold_keycode keycode"
  by (simp_all add: second_press_capture_def Let_def)

lemma collect_fields:
  "pth_was_held_instantly (collect_new_press_to_press_and_overlap_duration p t s) = pth_was_held_instantly s"
  "instant_layer_was_active (collect_new_press_to_press_and_overlap_duration p t s) = instant_layer_was_active s"
  by (simp_all add: collect_new_press_to_press_and_overlap_duration_def Let_def)


lemma keeps_hold:
  assumes "status_num (pth_status s) < status_num PTH_DECIDED_TAP"
    and "\<not> is_processing_record_due_to_pth s"
  shows "keeps PTH_DECIDED_HOLD s (make_decision_hold e h s)"
  unfolding make_decision_hold_def using assms
  apply (simp del: Let_def)
  apply (intro keeps_LetI keeps_ifI)
             apply (simp_all add: keeps_steps)
   apply (simp add: keeps_def)
  apply (rule keeps_prodI)
   apply (simp add: keeps_steps)
  apply (intro keeps_LetI keeps_ifI)
    apply (simp_all add: keeps_steps)
  done

lemma tap_effect_status:
  assumes "status_num (pth_status s) < status_num PTH_DECIDED_TAP"
    and "\<not> is_processing_record_due_to_pth s"
  shows "pth_status (tap_effect e h s) = PTH_DECIDED_TAP"
    "is_processing_record_due_to_pth (tap_effect e h s) = False"
    "key (pth_record (tap_effect e h s)) = key (pth_record s)"
    "key (second_record (tap_effect e h s)) = key (second_record s)"
    "length (release_as_tap_positions (tap_effect e h s)) = length (release_as_tap_positions s)"
  using keeps_tap[OF assms, of e h] by (simp_all add: keeps_def tap_effect_def)

lemma hold_effect_status:
  assumes "status_num (pth_status s) < status_num PTH_DECIDED_TAP"
    and "\<not> is_processing_record_due_to_pth s"
  shows "pth_status (hold_effect e h s) = PTH_DECIDED_HOLD"
    "is_processing_record_due_to_pth (hold_effect e h s) = False"
    "key (pth_record (hold_effect e h s)) = key (pth_record s)"
    "key (second_record (hold_effect e h s)) = key (second_record s)"
    "length (release_as_tap_positions (hold_effect e h s)) = length (release_as_tap_positions s)"
  using keeps_hold[OF assms, of e h] by (simp_all add: keeps_def hold_effect_def)

lemma store_fields:
  "pth_status (store_press_to_press_and_overlap_for_pth t s) = pth_status s"
  "has_second (store_press_to_press_and_overlap_for_pth t s) = has_second s"
  "has_chosen_after_timeout_reached (store_press_to_press_and_overlap_for_pth t s)
     = has_chosen_after_timeout_reached s"
  "is_processing_record_due_to_pth (store_press_to_press_and_overlap_for_pth t s)
     = is_processing_record_due_to_pth s"
  by (simp_all add: store_press_to_press_and_overlap_for_pth_def Let_def)

lemma idle_press_capture_fields:
  "pth_status (idle_press_capture h keycode record cur_time elapsed_now s) = PTH_PRESSED"
  "has_second (idle_press_capture h keycode record cur_time elapsed_now s) = has_second s"
  "has_chosen_after_timeout_reached (idle_press_capture h keycode record cur_time elapsed_now s)
     = has_chosen_after_timeout_reached s"
  "is_processing_record_due_to_pth (idle_press_capture h keycode record cur_time elapsed_now s)
     = is_processing_record_due_to_pth s"
  by (simp_all add: idle_press_capture_def Let_def store_fields)

lemma idle_press_capture_timeout:
  "(\<And>st. hk_get_timeout_for_forcing_choice h st = tmo) \<Longrightarrow>
   timeout_for_forcing_choice (idle_press_capture h keycode record cur_time elapsed_now s) = tmo"
  by (simp add: idle_press_capture_def Let_def)

lemma collect_more_fields:
  "has_second (collect_new_press_to_press_and_overlap_duration p t s) = has_second s"
  "has_chosen_after_timeout_reached (collect_new_press_to_press_and_overlap_duration p t s)
     = has_chosen_after_timeout_reached s"
  "is_processing_record_due_to_pth (collect_new_press_to_press_and_overlap_duration p t s)
     = is_processing_record_due_to_pth s"
  by (simp_all add: collect_new_press_to_press_and_overlap_duration_def Let_def)

lemma idle_press_rest_not_forced:
  assumes "pth_status s = PTH_PRESSED" and "\<not> is_processing_record_due_to_pth s"
    and "\<not> has_chosen_after_timeout_reached s"
  shows "case idle_press_rest c e h keycode s of
           Inl err \<Rightarrow> False
         | Inr (b, s') \<Rightarrow> \<not> has_chosen_after_timeout_reached s' \<and> pth_status s' \<noteq> PTH_DECIDED_HOLD"
  using assms
  by (simp add: idle_press_rest_def Let_def emit_defs reset_pth_state_def
      add_pos_to_tap_releases_def make_decision_tap_frame tap_effect_status)

lemma idle_press_rest_Inr: "\<exists>s'. idle_press_rest c e h keycode s = Inr (False, s')"
  by (simp add: idle_press_rest_def Let_def)

lemma store_timeout:
  "timeout_for_forcing_choice (store_press_to_press_and_overlap_for_pth t s)
     = timeout_for_forcing_choice s"
  by (simp add: store_press_to_press_and_overlap_for_pth_def Let_def)

lemma collect_timeout:
  "timeout_for_forcing_choice (collect_new_press_to_press_and_overlap_duration p t s)
     = timeout_for_forcing_choice s"
  by (simp add: collect_new_press_to_press_and_overlap_duration_def Let_def)

lemma idle_press_capture_lookup:
  "timeout_for_forcing_choice (idle_press_capture h keycode record cur_time elapsed_now s)
     = hk_get_timeout_for_forcing_choice h
         ((idle_press_capture h keycode record cur_time elapsed_now s)
            \<lparr>timeout_for_forcing_choice := timeout_for_forcing_choice s\<rparr>)"
proof -
  define s1 where "s1 = (s\<lparr>pth_status := PTH_PRESSED, pth_press_timer := cur_time,
      pth_keycode := keycode, pth_record := record\<rparr>)"
  define s2 where "s2 = s1\<lparr>pth_side_user_bits := PTH_GET_USER_BITS (hk_get_side h s1 record),
      pth_atomic_side := PTH_GET_PTH_ATOM_SIDE (hk_get_side h s1 record),
      key_release_before_pth_to_pth_press_dur :=
        (if release_timer_max_reached s then MS_MAX_DUR_FOR_TIMERS
         else TIMER_DIFF_16 cur_time (release_timer s))\<rparr>"
  define s3 where "s3 = store_press_to_press_and_overlap_for_pth elapsed_now s2"
  define x where "x = s3\<lparr>pth_tap_code_instead_of_hold :=
      hk_get_code_to_be_registered_instead_when_hold_chosen h s3\<rparr>"
  have c: "idle_press_capture h keycode record cur_time elapsed_now s
      = x\<lparr>timeout_for_forcing_choice := hk_get_timeout_for_forcing_choice h x\<rparr>"
    by (simp add: idle_press_capture_def Let_def x_def s3_def s2_def s1_def)
  have "timeout_for_forcing_choice x = timeout_for_forcing_choice s"
    by (simp add: x_def s3_def store_timeout s2_def s1_def)
  then have "x\<lparr>timeout_for_forcing_choice := hk_get_timeout_for_forcing_choice h x\<rparr>
      \<lparr>timeout_for_forcing_choice := timeout_for_forcing_choice s\<rparr> = x"
    by simp
  then show ?thesis unfolding c by simp
qed

lemma forced_at_press:
  assumes "pth_status s = PTH_PRESSED" and "\<not> is_processing_record_due_to_pth s"
  shows "hk_get_forced_choice_after_timeout h (s\<lparr>has_chosen_after_timeout_reached := True\<rparr>)
           = PTH_DECIDED_HOLD
         \<Longrightarrow> pth_status (make_user_choice_or_not c e h s) = PTH_DECIDED_HOLD
             \<and> has_chosen_after_timeout_reached (make_user_choice_or_not c e h s)"
    and "hk_get_forced_choice_after_timeout h (s\<lparr>has_chosen_after_timeout_reached := True\<rparr>)
           = PTH_DECIDED_TAP \<Longrightarrow> \<not> PTH_RESET_IMMEDIATELY_WHEN_TAP_CHOSEN c
         \<Longrightarrow> pth_status (make_user_choice_or_not c e h s) = PTH_DECIDED_TAP
             \<and> has_chosen_after_timeout_reached (make_user_choice_or_not c e h s)"
    and "hk_get_forced_choice_after_timeout h (s\<lparr>has_chosen_after_timeout_reached := True\<rparr>)
           \<noteq> PTH_DECIDED_HOLD
         \<Longrightarrow> hk_get_forced_choice_after_timeout h (s\<lparr>has_chosen_after_timeout_reached := True\<rparr>)
           \<noteq> PTH_DECIDED_TAP
         \<Longrightarrow> make_user_choice_or_not c e h s = s\<lparr>has_chosen_after_timeout_reached := True\<rparr>"
  using assms
  by (simp_all add: make_user_choice_or_not_def Let_def make_decision_hold_frame
      make_decision_tap_frame hold_effect_status tap_effect_status)

lemma housekeeping_never_forces:
  assumes "sint (timeout_for_forcing_choice s) \<le> 0"
  shows "has_chosen_after_timeout_reached (housekeeping_task_predictive_tap_hold c e h t s)
         = has_chosen_after_timeout_reached s"
  using assms
  by (simp add: housekeeping_task_predictive_tap_hold_def housekeeping_timers_def Let_def
      housekeeping_pth_press_timer_def make_decision_hold_frame)

text \<open>
  C6, amended. When a second key is pressed while the tap-hold key is held, and the press
  is not one of the events that are passed through and not the \<open>KC_NO\<close> key of an
  instantly activated layer (\<open>pth_was_held_instantly\<close>, \<open>instant_layer_was_active\<close> and
  keycode \<open>KC_NO\<close>, for which tap is chosen before any prediction is made), then the call
  returns normally, and whenever the key is a tap-hold key or on the other side, and the
  module has not gone back to idle in the same call, the stored
  \<open>min_overlap_dur_for_hold\<close> is what the predictor answers in the state with the second
  key captured, clamped to the range from \<open>PTH_MS_MIN_OVERLAP\<close> to
  \<open>PTH_MS_MAX_OVERLAP\<close>.
\<close>

theorem min_overlap_clamped:
  assumes "pth_status s = PTH_PRESSED"
    and "passes_guards c e s keycode record"
    and "pressed record"
    and "\<not> (pth_was_held_instantly s \<and> instant_layer_was_active s \<and> keycode = KC_NO)"
  shows "case process_record_predictive_tap_hold c e h keycode record cur_time elapsed_now s of
           Inl err \<Rightarrow> False
         | Inr (b, s') \<Rightarrow>
             (pth_is_tap_hold_keycode keycode
              \<or> \<not> second_is_same_side_as_pth
                     (second_press_capture h keycode record cur_time
                        (counted_press keycode cur_time s)))
             \<and> pth_status s' \<noteq> PTH_IDLE
             \<longrightarrow> min_overlap_dur_for_hold s'
                 = word_of_int (min PTH_MS_MAX_OVERLAP (max PTH_MS_MIN_OVERLAP
                     (uint (hk_predict_min_overlap_for_hold_in_ms h
                        (second_press_capture h keycode record cur_time
                           (counted_press keycode cur_time s))))))"
proof -
  define s1 where "s1 = counted_press keycode cur_time s"
  define s2 where "s2 = second_press_capture h keycode record cur_time s1"
  have s1: "s1 = (collect_new_press_to_press_and_overlap_duration True cur_time s)
            \<lparr>prev_press_keycode :=
               cur_press_keycode (collect_new_press_to_press_and_overlap_duration True cur_time s),
             cur_press_keycode := keycode\<rparr>"
    by (simp add: s1_def counted_press_def Let_def)
  have f: "pth_was_held_instantly s2 = pth_was_held_instantly s"
    "instant_layer_was_active s2 = instant_layer_was_active s"
    "second_keycode s2 = keycode" "second_is_tap_hold s2 = pth_is_tap_hold_keycode keycode"
    by (simp_all add: s2_def s1 second_press_capture_fields collect_fields)
  have d: "process_record_predictive_tap_hold c e h keycode record cur_time elapsed_now s
      = second_press_decide c e h s2"
    by (simp add: dispatch_press[OF assms(2,3)] state_machine_def collect_status assms(1,3)
        pressed_case_def s1 s2_def)
  have "\<not> (pth_was_held_instantly s2 \<and> instant_layer_was_active s2 \<and> second_keycode s2 = KC_NO)"
    using assms(4) by (simp add: f)
  from second_press_decide_min_overlap[OF this, where c=c and e=e and h=h]
  show ?thesis unfolding d f clamp_overlap_def s2_def[symmetric] s1_def[symmetric] .
qed

text \<open>
  The theorem at the second press of key 7 on the example keyboard, where the predictor
  answers 80.
\<close>

theorem min_overlap_clamped_witness:
  "pth_status example_pressed_state = PTH_PRESSED
   \<and> passes_guards example_config example_env example_pressed_state 5 (key_at 7 True)
   \<and> pressed (key_at 7 True)
   \<and> (case process_record_predictive_tap_hold example_config example_env example_hooks 5
              (key_at 7 True) 150 150 example_pressed_state of
         Inl err \<Rightarrow> False
       | Inr (b, s') \<Rightarrow> pth_status s' = PTH_SECOND_PRESSED
                         \<and> min_overlap_dur_for_hold s' = 80)"
proof -
  have h1: "pth_status example_pressed_state = PTH_PRESSED" by code_simp
  have h2: "passes_guards example_config example_env example_pressed_state 5 (key_at 7 True)"
    by code_simp
  have h3: "pressed (key_at 7 True)" by (simp add: key_at_def)
  have h5: "\<not> (pth_was_held_instantly example_pressed_state
               \<and> instant_layer_was_active example_pressed_state \<and> (5::uint16_t) = KC_NO)"
    by (simp add: KC_NO_def)
  have ev: "case process_record_predictive_tap_hold example_config example_env example_hooks 5
              (key_at 7 True) 150 150 example_pressed_state of
         Inl err \<Rightarrow> False
       | Inr (b, s') \<Rightarrow> pth_status s' = PTH_SECOND_PRESSED"
    by code_simp
  have side: "\<not> second_is_same_side_as_pth
                     (second_press_capture example_hooks 5 (key_at 7 True) 150
                        (counted_press 5 150 example_pressed_state))"
    by code_simp
  have v: "hk_predict_min_overlap_for_hold_in_ms example_hooks
             (second_press_capture example_hooks 5 (key_at 7 True) 150
                (counted_press 5 150 example_pressed_state)) = 80"
    by (simp add: example_hooks_def default_hooks_def example_predictors_def)
  from min_overlap_clamped[where h=example_hooks and cur_time=150 and elapsed_now=150,
      OF h1 h2 h3 h5] ev side
  have "case process_record_predictive_tap_hold example_config example_env example_hooks 5
              (key_at 7 True) 150 150 example_pressed_state of
         Inl err \<Rightarrow> False
       | Inr (b, s') \<Rightarrow> pth_status s' = PTH_SECOND_PRESSED
                         \<and> min_overlap_dur_for_hold s' = 80"
    unfolding v
    by (simp add: PTH_MS_MAX_OVERLAP_def PTH_MS_MIN_OVERLAP_def split: sum.splits prod.splits)
  with h1 h2 h3 show ?thesis by simp
qed

text \<open>
  C3, amended. On the press of a tap-hold key in the idle state that is not passed
  through, the timeout is looked up with the key captured, whatever the timeout function
  makes of the state, and the forced-choice policy \<open>make_user_choice_or_not\<close> is applied
  in that very call exactly when the timeout looked up equals 0. With 0, the call goes
  on from the state the policy leaves: a forced hold, or a forced tap without
  \<^verbatim>\<open>PTH_RESET_IMMEDIATELY_WHEN_TAP_CHOSEN\<close>, is the decision the call returns with,
  \<open>has_chosen_after_timeout_reached\<close> set; a policy that chooses neither only sets that
  flag. With any other timeout, negative values included, the call goes on from the
  captured state, and \<open>has_chosen_after_timeout_reached\<close> stays unset. And the
  housekeeping task never forces a choice while the stored timeout is zero or negative.
\<close>

theorem forced_choice_at_press:
  assumes "pth_status s = PTH_IDLE"
    and "passes_guards c e s keycode record"
    and "pressed record"
    and "pth_is_tap_hold_keycode keycode"
  shows "let s6 = idle_press_capture h keycode record cur_time elapsed_now
                    (counted_press keycode cur_time s);
             forced = make_user_choice_or_not c e h s6;
             choice = hk_get_forced_choice_after_timeout h
                        (s6\<lparr>has_chosen_after_timeout_reached := True\<rparr>);
             r = process_record_predictive_tap_hold c e h keycode record cur_time elapsed_now s
         in timeout_for_forcing_choice s6
              = hk_get_timeout_for_forcing_choice h
                  (s6\<lparr>timeout_for_forcing_choice := timeout_for_forcing_choice s\<rparr>)
            \<and> r = (if timeout_for_forcing_choice s6 = 0 then
                      if status_num (pth_status forced) \<ge> status_num PTH_DECIDED_TAP
                      then Inr (False, forced)
                      else idle_press_rest c e h keycode forced
                    else idle_press_rest c e h keycode s6)
            \<and> (timeout_for_forcing_choice s6 = 0 \<and> choice = PTH_DECIDED_HOLD
                 \<longrightarrow> r = Inr (False, forced) \<and> pth_status forced = PTH_DECIDED_HOLD
                     \<and> has_chosen_after_timeout_reached forced)
            \<and> (timeout_for_forcing_choice s6 = 0 \<and> choice = PTH_DECIDED_TAP
                 \<and> \<not> PTH_RESET_IMMEDIATELY_WHEN_TAP_CHOSEN c
                 \<longrightarrow> r = Inr (False, forced) \<and> pth_status forced = PTH_DECIDED_TAP
                     \<and> has_chosen_after_timeout_reached forced)
            \<and> (choice \<noteq> PTH_DECIDED_HOLD \<and> choice \<noteq> PTH_DECIDED_TAP
                 \<longrightarrow> forced = s6\<lparr>has_chosen_after_timeout_reached := True\<rparr>)
            \<and> (timeout_for_forcing_choice s6 \<noteq> 0 \<and> \<not> has_chosen_after_timeout_reached s
                 \<longrightarrow> (case r of Inl err \<Rightarrow> False
                      | Inr (b, s') \<Rightarrow> \<not> has_chosen_after_timeout_reached s'
                                       \<and> pth_status s' \<noteq> PTH_DECIDED_HOLD))
            \<and> (sint (timeout_for_forcing_choice s2) \<le> 0
                 \<longrightarrow> has_chosen_after_timeout_reached
                       (housekeeping_task_predictive_tap_hold c e h tick_time s2)
                     = has_chosen_after_timeout_reached s2)"
proof -
  define s1 where "s1 = counted_press keycode cur_time s"
  define s6 where "s6 = idle_press_capture h keycode record cur_time elapsed_now s1"
  define forced where "forced = make_user_choice_or_not c e h s6"
  define choice where "choice = hk_get_forced_choice_after_timeout h
                        (s6\<lparr>has_chosen_after_timeout_reached := True\<rparr>)"
  define r where
    "r = process_record_predictive_tap_hold c e h keycode record cur_time elapsed_now s"
  have s1: "s1 = (collect_new_press_to_press_and_overlap_duration True cur_time s)
            \<lparr>prev_press_keycode :=
               cur_press_keycode (collect_new_press_to_press_and_overlap_duration True cur_time s),
             cur_press_keycode := keycode\<rparr>"
    by (simp add: s1_def counted_press_def Let_def)
  have np: "\<not> is_processing_record_due_to_pth s"
    using assms(2) by (simp add: passes_guards_def)
  have f: "pth_status s6 = PTH_PRESSED" "\<not> is_processing_record_due_to_pth s6"
    "has_chosen_after_timeout_reached s6 = has_chosen_after_timeout_reached s"
    using np by (simp_all add: s6_def s1 idle_press_capture_fields collect_more_fields)
  have lookup: "timeout_for_forcing_choice s6
      = hk_get_timeout_for_forcing_choice h
          (s6\<lparr>timeout_for_forcing_choice := timeout_for_forcing_choice s\<rparr>)"
    unfolding s6_def
    by (simp add: idle_press_capture_lookup s1 collect_timeout)
  have d: "r = (if timeout_for_forcing_choice s6 = 0 then
                  if status_num (pth_status forced) \<ge> status_num PTH_DECIDED_TAP
                  then Inr (False, forced)
                  else idle_press_rest c e h keycode forced
                else idle_press_rest c e h keycode s6)"
  proof -
    have s1st: "pth_status s1 = PTH_IDLE" by (simp add: s1 collect_status assms(1))
    have "r = idle_case c e h keycode record cur_time elapsed_now s1"
      unfolding r_def dispatch_press[OF assms(2,3)] s1[symmetric]
      by (simp add: state_machine_def s1st)
    then show ?thesis
      by (simp add: idle_case_def assms(3,4) s6_def[symmetric] forced_def Let_def)
  qed
  have hold: "timeout_for_forcing_choice s6 = 0 \<and> choice = PTH_DECIDED_HOLD
      \<longrightarrow> r = Inr (False, forced) \<and> pth_status forced = PTH_DECIDED_HOLD
          \<and> has_chosen_after_timeout_reached forced"
    using forced_at_press(1)[OF f(1,2), of h c e] unfolding d forced_def choice_def by simp
  have tap: "timeout_for_forcing_choice s6 = 0 \<and> choice = PTH_DECIDED_TAP
      \<and> \<not> PTH_RESET_IMMEDIATELY_WHEN_TAP_CHOSEN c
      \<longrightarrow> r = Inr (False, forced) \<and> pth_status forced = PTH_DECIDED_TAP
          \<and> has_chosen_after_timeout_reached forced"
    using forced_at_press(2)[OF f(1,2), of h c e] unfolding d forced_def choice_def by simp
  have none: "choice \<noteq> PTH_DECIDED_HOLD \<and> choice \<noteq> PTH_DECIDED_TAP
      \<longrightarrow> forced = s6\<lparr>has_chosen_after_timeout_reached := True\<rparr>"
    using forced_at_press(3)[OF f(1,2), of h c e] unfolding forced_def choice_def by simp
  have other: "timeout_for_forcing_choice s6 \<noteq> 0 \<and> \<not> has_chosen_after_timeout_reached s
      \<longrightarrow> (case r of Inl err \<Rightarrow> False
           | Inr (b, s') \<Rightarrow> \<not> has_chosen_after_timeout_reached s'
                            \<and> pth_status s' \<noteq> PTH_DECIDED_HOLD)"
  proof (intro impI, elim conjE)
    assume nz: "timeout_for_forcing_choice s6 \<noteq> 0"
      and nc: "\<not> has_chosen_after_timeout_reached s"
    from nc have "\<not> has_chosen_after_timeout_reached s6" by (simp add: f(3))
    from idle_press_rest_not_forced[OF f(1,2) this, of c e h keycode] nz
    show "case r of Inl err \<Rightarrow> False
           | Inr (b, s') \<Rightarrow> \<not> has_chosen_after_timeout_reached s'
                            \<and> pth_status s' \<noteq> PTH_DECIDED_HOLD"
      unfolding d by simp
  qed
  have hk: "sint (timeout_for_forcing_choice s2) \<le> 0
            \<longrightarrow> has_chosen_after_timeout_reached
                  (housekeeping_task_predictive_tap_hold c e h tick_time s2)
                = has_chosen_after_timeout_reached s2"
    using housekeeping_never_forces[of s2 c e h tick_time] by simp
  from lookup d hold tap none other hk show ?thesis
    unfolding Let_def s6_def[symmetric] s1_def[symmetric] forced_def[symmetric]
      choice_def[symmetric] r_def[symmetric]
    by (intro conjI)
qed

text \<open>
  The theorem at the first press of the home-row key on the example keyboard, with the
  timeout set to 0 and a policy that forces tap.
\<close>

theorem forced_choice_at_press_witness:
  "pth_status init_state = PTH_IDLE
   \<and> passes_guards example_config example_env init_state LCTL_T_A (key_at 0 True)
   \<and> pressed (key_at 0 True) \<and> pth_is_tap_hold_keycode LCTL_T_A
   \<and> timeout_for_forcing_choice
        (idle_press_capture decide_on_press_as_tap_hooks LCTL_T_A (key_at 0 True) 100 100
           (counted_press LCTL_T_A 100 init_state)) = 0
   \<and> (case process_record_predictive_tap_hold example_config example_env
              decide_on_press_as_tap_hooks LCTL_T_A (key_at 0 True) 100 100 init_state of
         Inl err \<Rightarrow> False
       | Inr (b, s') \<Rightarrow> has_chosen_after_timeout_reached s' \<and> pth_status s' = PTH_DECIDED_TAP)"
proof -
  have h1: "pth_status init_state = PTH_IDLE" by (simp add: init_state_def)
  have h2: "passes_guards example_config example_env init_state LCTL_T_A (key_at 0 True)"
    by code_simp
  have h3: "pressed (key_at 0 True)" by (simp add: key_at_def)
  have h4: "pth_is_tap_hold_keycode LCTL_T_A" by code_simp
  have z: "timeout_for_forcing_choice
        (idle_press_capture decide_on_press_as_tap_hooks LCTL_T_A (key_at 0 True) 100 100
           (counted_press LCTL_T_A 100 init_state)) = 0"
    by (simp add: idle_press_capture_def Let_def decide_on_press_as_tap_hooks_def)
  have ch: "hk_get_forced_choice_after_timeout decide_on_press_as_tap_hooks st = PTH_DECIDED_TAP"
    for st by (simp add: decide_on_press_as_tap_hooks_def)
  have cfg: "\<not> PTH_RESET_IMMEDIATELY_WHEN_TAP_CHOSEN example_config"
    by (simp add: example_config_def)
  define s6 where "s6 = idle_press_capture decide_on_press_as_tap_hooks LCTL_T_A (key_at 0 True)
      100 100 (counted_press LCTL_T_A 100 init_state)"
  define forced where
    "forced = make_user_choice_or_not example_config example_env decide_on_press_as_tap_hooks s6"
  define r where "r = process_record_predictive_tap_hold example_config example_env
      decide_on_press_as_tap_hooks LCTL_T_A (key_at 0 True) 100 100 init_state"
  note th = forced_choice_at_press[where h=decide_on_press_as_tap_hooks and c=example_config
      and e=example_env and cur_time=100 and elapsed_now=100 and ?s2.0=init_state
      and tick_time=0, OF h1 h2 h3 h4, unfolded Let_def, folded s6_def, folded forced_def,
      folded r_def]
  from th have "timeout_for_forcing_choice s6 = 0
      \<and> hk_get_forced_choice_after_timeout decide_on_press_as_tap_hooks
            (s6\<lparr>has_chosen_after_timeout_reached := True\<rparr>) = PTH_DECIDED_TAP
      \<and> \<not> PTH_RESET_IMMEDIATELY_WHEN_TAP_CHOSEN example_config
      \<longrightarrow> r = Inr (False, forced) \<and> pth_status forced = PTH_DECIDED_TAP
          \<and> has_chosen_after_timeout_reached forced"
    by (elim conjE)
  moreover have "timeout_for_forcing_choice s6 = 0" unfolding s6_def by (rule z)
  ultimately have "r = Inr (False, forced) \<and> pth_status forced = PTH_DECIDED_TAP
          \<and> has_chosen_after_timeout_reached forced"
    using ch cfg by blast
  then have "case r of Inl err \<Rightarrow> False
       | Inr (b, s') \<Rightarrow> has_chosen_after_timeout_reached s' \<and> pth_status s' = PTH_DECIDED_TAP"
    by simp
  with h1 h2 h3 h4 z show ?thesis unfolding r_def by (intro conjI)
qed

subsection \<open>Durations stay in range\<close>

lemma sint16: "sint (d::16 word) = (if uint d < 32768 then uint d else uint d - 65536)"
proof -
  have b: "0 \<le> uint d" "uint d < 65536" using uint_lt2p[of d] by simp_all
  have s: "sint d = (uint d + 32768) mod 65536 - 32768"
    by (simp add: sint_uint signed_take_bit_eq_take_bit_shift take_bit_eq_mod)
  show ?thesis
  proof (cases "uint d < 32768")
    case True
    with b have "(uint d + 32768) mod 65536 = uint d + 32768" by simp
    with True s show ?thesis by simp
  next
    case False
    have "uint d + 32768 = (uint d - 32768) + 65536" by arith
    then have "(uint d + 32768) mod 65536 = ((uint d - 32768) + 65536) mod 65536"
      by (rule arg_cong)
    also have "\<dots> = (uint d - 32768) mod 65536" by (simp only: mod_add_self2)
    also have "\<dots> = uint d - 32768" using b False by simp
    finally show ?thesis using False s by simp
  qed
qed

lemma dur_in_range_iff: "dur_in_range d = (d \<le> 4096)"
  by (simp add: dur_in_range_def MS_MAX_DUR_FOR_TIMERS_def word_le_def)

lemma dur_in_range_or_unset_iff: "dur_in_range_or_unset d = (d = - 1 \<or> d \<le> 4096)"
proof -
  have a: "(sint d = - 1) = (d = - 1)" by (metis sint_n1 signed_word_eqI)
  have b: "(0 \<le> sint d \<and> sint d \<le> 4096) = (d \<le> 4096)"
    using uint_lt2p[of d] by (simp add: sint16 word_le_def)
  show ?thesis unfolding dur_in_range_or_unset_def a MS_MAX_DUR_FOR_TIMERS_def using b by simp
qed

lemma dur_in_range_simps [simp]:
  "dur_in_range MS_MAX_DUR_FOR_TIMERS" "dur_in_range_or_unset MS_MAX_DUR_FOR_TIMERS"
  "dur_in_range_or_unset 0" "dur_in_range_or_unset (- 1)"
  by (simp_all add: dur_in_range_iff dur_in_range_or_unset_iff MS_MAX_DUR_FOR_TIMERS_def)

lemma dur_in_range_less:
  "d < MS_MAX_DUR_FOR_TIMERS \<Longrightarrow> dur_in_range d"
  "d < MS_MAX_DUR_FOR_TIMERS \<Longrightarrow> dur_in_range_or_unset d"
  by (auto simp add: dur_in_range_iff dur_in_range_or_unset_iff MS_MAX_DUR_FOR_TIMERS_def
      intro: order_less_imp_le)

lemma durs_cong: "durs s' = durs s \<Longrightarrow> durations_in_range s' = durations_in_range s"
  by (simp add: durs_def durations_in_range_def)

lemma durs_upd [simp]:
  "durs (s\<lparr>pth_status := v0\<rparr>) = durs s"
  "durs (s\<lparr>pth_prev_status := v1\<rparr>) = durs s"
  "durs (s\<lparr>pth_keycode := v2\<rparr>) = durs s"
  "durs (s\<lparr>pth_tap_code_instead_of_hold := v3\<rparr>) = durs s"
  "durs (s\<lparr>pth_record := v4\<rparr>) = durs s"
  "durs (s\<lparr>pth_press_timer := v5\<rparr>) = durs s"
  "durs (s\<lparr>pth_press_timer_max_reached := v6\<rparr>) = durs s"
  "durs (s\<lparr>pth_atomic_side := v7\<rparr>) = durs s"
  "durs (s\<lparr>pth_side_user_bits := v8\<rparr>) = durs s"
  "durs (s\<lparr>pth_was_held_instantly := v9\<rparr>) = durs s"
  "durs (s\<lparr>second_was_held_instantly := v10\<rparr>) = durs s"
  "durs (s\<lparr>instant_layer_was_active := v11\<rparr>) = durs s"
  "durs (s\<lparr>layer_before_instant_layer_tap := v12\<rparr>) = durs s"
  "durs (s\<lparr>has_second := v13\<rparr>) = durs s"
  "durs (s\<lparr>second_record := v14\<rparr>) = durs s"
  "durs (s\<lparr>second_keycode := v15\<rparr>) = durs s"
  "durs (s\<lparr>second_press_timer := v16\<rparr>) = durs s"
  "durs (s\<lparr>second_press_timer_max_reached := v17\<rparr>) = durs s"
  "durs (s\<lparr>second_is_tap_hold := v18\<rparr>) = durs s"
  "durs (s\<lparr>second_is_same_side_as_pth := v19\<rparr>) = durs s"
  "durs (s\<lparr>second_to_be_released := v20\<rparr>) = durs s"
  "durs (s\<lparr>timeout_for_forcing_choice := v21\<rparr>) = durs s"
  "durs (s\<lparr>has_chosen_after_timeout_reached := v22\<rparr>) = durs s"
  "durs (s\<lparr>min_overlap_dur_for_hold := v23\<rparr>) = durs s"
  "durs (s\<lparr>prev_press_keycode := v24\<rparr>) = durs s"
  "durs (s\<lparr>cur_press_keycode := v25\<rparr>) = durs s"
  "durs (s\<lparr>down_count := v26\<rparr>) = durs s"
  "durs (s\<lparr>overlap_timer := v27\<rparr>) = durs s"
  "durs (s\<lparr>overlap_timer_max_reached := v28\<rparr>) = durs s"
  "durs (s\<lparr>press_to_press_timer := v29\<rparr>) = durs s"
  "durs (s\<lparr>press_to_press_timer_max_reached := v30\<rparr>) = durs s"
  "durs (s\<lparr>release_timer := v31\<rparr>) = durs s"
  "durs (s\<lparr>release_timer_max_reached := v32\<rparr>) = durs s"
  "durs (s\<lparr>release_as_tap_positions := v33\<rparr>) = durs s"
  "durs (s\<lparr>used_release_as_tap_positions_bitmask := v34\<rparr>) = durs s"
  "durs (s\<lparr>release_records := v35\<rparr>) = durs s"
  "durs (s\<lparr>is_before_second_bitmask := v36\<rparr>) = durs s"
  "durs (s\<lparr>used_release_records_bitmask := v37\<rparr>) = durs s"
  "durs (s\<lparr>is_processing_record_due_to_pth := v38\<rparr>) = durs s"
  "durs (s\<lparr>out := v39\<rparr>) = durs s"
  by (simp_all add: durs_def)

lemma durs_prims [simp]:
  "durs (emit a s) = durs s"
  "durs (send_and_wait s) = durs s"
  "durs (tap_code16 kc s) = durs s"
  "durs (process_record_with_new_time r s) = durs s"
  "durs (on_pth_record process_register_record_as_tap s) = durs s"
  "durs (on_pth_record process_unregister_record_as_tap s) = durs s"
  "durs (on_pth_record process_register_record_as_hold s) = durs s"
  "durs (on_pth_record process_unregister_record_as_hold s) = durs s"
  "durs (on_second_record process_register_record s) = durs s"
  "durs (on_second_record process_unregister_record s) = durs s"
  "durs (on_second_record process_register_record_as_hold s) = durs s"
  "durs (on_second_record process_unregister_record_as_hold s) = durs s"
  "durs (snd (process_register_record_as_tap r s)) = durs s"
  "durs (snd (process_register_record_as_hold r s)) = durs s"
  "durs (snd (process_unregister_record_as_tap r s)) = durs s"
  "durs (add_pos_to_tap_releases p s) = durs s"
  "durs (reset_pth_state s) = durs s"
  "durs (unregister_pth_hold s) = durs s"
  "durs (snd (remove_pos_from_tap_releases p s)) = durs s"
  by (simp_all add: emit_defs add_pos_to_tap_releases_def Let_def reset_pth_state_def
      unregister_pth_hold_def remove_pos_from_tap_releases_def remove_pos_loop_frame)

lemma durs_decisions [simp]:
  "durs (make_decision_tap e h s) = durs s"
  "durs (make_decision_hold e h s) = durs s"
  by (subst make_decision_tap_frame, simp) (subst make_decision_hold_frame, simp)

lemma durs_tap_chosen_reset [simp]: "durs (tap_chosen_reset c s) = durs s"
  by (simp add: tap_chosen_reset_def)

lemma durs_user_choice [simp]: "durs (make_user_choice_or_not c e h s) = durs s"
  by (simp add: make_user_choice_or_not_def Let_def)


lemma has_status_LetI:
  "has_status st a \<Longrightarrow> (\<And>x. has_status st x \<Longrightarrow> has_status st (f x))
   \<Longrightarrow> has_status st (Let a f)"
  by (simp add: Let_def)

lemma has_status_ifI:
  "has_status st a \<Longrightarrow> has_status st b \<Longrightarrow> has_status st (if c then a else b)"
  by simp

lemma has_status_prodI:
  "has_status st (snd p) \<Longrightarrow> (\<And>w x. has_status st x \<Longrightarrow> has_status st (f w x))
   \<Longrightarrow> has_status st (case_prod f p)"
  by (simp add: case_prod_beta)

lemma has_status_prims:
  assumes "has_status st s"
  shows "has_status st (emit a s)"
    "has_status st (send_and_wait s)"
    "has_status st (tap_code16 kc s)"
    "has_status st (process_record_with_new_time r s)"
    "has_status st (on_pth_record process_register_record_as_tap s)"
    "has_status st (on_pth_record process_unregister_record_as_tap s)"
    "has_status st (on_pth_record process_register_record_as_hold s)"
    "has_status st (on_pth_record process_unregister_record_as_hold s)"
    "has_status st (on_second_record process_register_record s)"
    "has_status st (on_second_record process_unregister_record s)"
    "has_status st (on_second_record process_register_record_as_hold s)"
    "has_status st (on_second_record process_unregister_record_as_hold s)"
    "has_status st (add_pos_to_tap_releases p s)"
    "has_status st (snd (release_loop w b s))"
    "has_status st (s\<lparr>second_keycode := kc\<rparr>)"
    "has_status st (s\<lparr>second_is_tap_hold := th\<rparr>)"
    "has_status st (s\<lparr>second_record := set_record_to_tap (second_record s)\<rparr>)"
    "has_status st (s\<lparr>second_record := set_record_to_hold (second_record s)\<rparr>)"
  using assms
  by (simp_all add: has_status_def emit_defs add_pos_to_tap_releases_def Let_def
      release_loop_frame)

lemma has_status_release:
  assumes "has_status st s"
  shows "has_status st (snd (process_release_records rt b s))"
    "has_status st (snd (process_release_records_and_wait_before_first rt s))"
  using assms
  by (simp_all add: process_release_records_def has_status_def release_loop_frame
      process_release_records_and_wait_before_first_def Let_def)

lemma has_status_register:
  assumes "has_status st s"
  shows "has_status st (register_pth_hold e s)" "has_status st (unregister_pth_hold s)"
  using assms
  by (simp_all add: register_pth_hold_def unregister_pth_hold_def Let_def has_status_def
      emit_defs)

lemmas has_status_steps = has_status_prims has_status_release has_status_register

lemma has_status_tap:
  assumes "status_num (pth_status s) < status_num PTH_DECIDED_TAP"
  shows "has_status PTH_DECIDED_TAP (make_decision_tap e h s)"
  unfolding make_decision_tap_def using assms
  apply (simp del: Let_def)
  apply (intro has_status_LetI has_status_ifI)
             apply (simp_all add: has_status_steps)
   apply (simp add: has_status_def)
  apply (rule has_status_prodI)
   apply (simp add: has_status_steps)
  apply (intro has_status_LetI has_status_ifI)
    apply (simp_all add: has_status_steps)
  done

lemma has_status_hold:
  assumes "status_num (pth_status s) < status_num PTH_DECIDED_TAP"
  shows "has_status PTH_DECIDED_HOLD (make_decision_hold e h s)"
  unfolding make_decision_hold_def using assms
  apply (simp del: Let_def)
  apply (intro has_status_LetI has_status_ifI)
             apply (simp_all add: has_status_steps)
   apply (simp add: has_status_def)
  apply (rule has_status_prodI)
   apply (simp add: has_status_steps)
  apply (intro has_status_LetI has_status_ifI)
    apply (simp_all add: has_status_steps)
  done

lemma decision_status:
  "pth_status (make_decision_tap e h s) = PTH_DECIDED_TAP
   \<or> pth_status (make_decision_tap e h s) = pth_status s
      \<and> status_num (pth_status s) \<ge> status_num PTH_DECIDED_TAP"
  "pth_status (make_decision_hold e h s) = PTH_DECIDED_HOLD
   \<or> pth_status (make_decision_hold e h s) = pth_status s
      \<and> status_num (pth_status s) \<ge> status_num PTH_DECIDED_TAP"
proof -
  show "pth_status (make_decision_tap e h s) = PTH_DECIDED_TAP
   \<or> pth_status (make_decision_tap e h s) = pth_status s
      \<and> status_num (pth_status s) \<ge> status_num PTH_DECIDED_TAP"
  proof (cases "status_num (pth_status s) \<ge> status_num PTH_DECIDED_TAP")
    case True
    then show ?thesis by (simp add: make_decision_tap_def)
  next
    case False
    then have "status_num (pth_status s) < status_num PTH_DECIDED_TAP" by simp
    from has_status_tap[OF this] show ?thesis by (simp add: has_status_def)
  qed
  show "pth_status (make_decision_hold e h s) = PTH_DECIDED_HOLD
   \<or> pth_status (make_decision_hold e h s) = pth_status s
      \<and> status_num (pth_status s) \<ge> status_num PTH_DECIDED_TAP"
  proof (cases "status_num (pth_status s) \<ge> status_num PTH_DECIDED_TAP")
    case True
    then show ?thesis by (simp add: make_decision_hold_def)
  next
    case False
    then have "status_num (pth_status s) < status_num PTH_DECIDED_TAP" by simp
    from has_status_hold[OF this] show ?thesis by (simp add: has_status_def)
  qed
qed

lemma user_choice_status:
  "pth_status (make_user_choice_or_not c e h s) = pth_status s
   \<or> pth_status (make_user_choice_or_not c e h s) = PTH_IDLE
   \<or> pth_status (make_user_choice_or_not c e h s) = PTH_DECIDED_TAP
   \<or> pth_status (make_user_choice_or_not c e h s) = PTH_DECIDED_HOLD"
  using decision_status(1)[of e h "s\<lparr>has_chosen_after_timeout_reached := True\<rparr>"]
    decision_status(2)[of e h "s\<lparr>has_chosen_after_timeout_reached := True\<rparr>"]
  by (simp add: make_user_choice_or_not_def Let_def reset_pth_state_def) blast

lemma decision_clocks:
  "release_timer (make_decision_tap e h s) = release_timer s"
  "release_timer_max_reached (make_decision_tap e h s) = release_timer_max_reached s"
  "press_to_press_timer (make_decision_tap e h s) = press_to_press_timer s"
  "press_to_press_timer_max_reached (make_decision_tap e h s) = press_to_press_timer_max_reached s"
  "overlap_timer (make_decision_tap e h s) = overlap_timer s"
  "overlap_timer_max_reached (make_decision_tap e h s) = overlap_timer_max_reached s"
  "down_count (make_decision_tap e h s) = down_count s"
  "pth_press_timer (make_decision_tap e h s) = pth_press_timer s"
  "second_press_timer (make_decision_tap e h s) = second_press_timer s"
  "pth_press_timer_max_reached (make_decision_tap e h s) = pth_press_timer_max_reached s"
  "second_press_timer_max_reached (make_decision_tap e h s) = second_press_timer_max_reached s"
  "release_timer (make_decision_hold e h s) = release_timer s"
  "release_timer_max_reached (make_decision_hold e h s) = release_timer_max_reached s"
  "press_to_press_timer (make_decision_hold e h s) = press_to_press_timer s"
  "press_to_press_timer_max_reached (make_decision_hold e h s) = press_to_press_timer_max_reached s"
  "overlap_timer (make_decision_hold e h s) = overlap_timer s"
  "overlap_timer_max_reached (make_decision_hold e h s) = overlap_timer_max_reached s"
  "down_count (make_decision_hold e h s) = down_count s"
  "pth_press_timer (make_decision_hold e h s) = pth_press_timer s"
  "second_press_timer (make_decision_hold e h s) = second_press_timer s"
  "pth_press_timer_max_reached (make_decision_hold e h s) = pth_press_timer_max_reached s"
  "second_press_timer_max_reached (make_decision_hold e h s) = second_press_timer_max_reached s"
  by (subst make_decision_tap_frame, simp)+ (subst make_decision_hold_frame, simp)+

lemma user_choice_clocks:
  "release_timer (make_user_choice_or_not c e h s) = release_timer s"
  "release_timer_max_reached (make_user_choice_or_not c e h s) = release_timer_max_reached s"
  "press_to_press_timer (make_user_choice_or_not c e h s) = press_to_press_timer s"
  "press_to_press_timer_max_reached (make_user_choice_or_not c e h s)
     = press_to_press_timer_max_reached s"
  "overlap_timer (make_user_choice_or_not c e h s) = overlap_timer s"
  "overlap_timer_max_reached (make_user_choice_or_not c e h s) = overlap_timer_max_reached s"
  "down_count (make_user_choice_or_not c e h s) = down_count s"
  "pth_press_timer (make_user_choice_or_not c e h s) = pth_press_timer s"
  "second_press_timer (make_user_choice_or_not c e h s) = second_press_timer s"
  by (simp_all add: make_user_choice_or_not_def Let_def decision_clocks reset_pth_state_def
      add_pos_to_tap_releases_def)

lemma user_choice_flags:
  "pth_status (make_user_choice_or_not c e h s) = PTH_IDLE
   \<or> second_press_timer_max_reached (make_user_choice_or_not c e h s)
       = second_press_timer_max_reached s"
  by (simp add: make_user_choice_or_not_def Let_def decision_clocks reset_pth_state_def)

lemma housekeeping_timers_fields:
  "pth_status (housekeeping_timers t s) = pth_status s"
  "pth_press_timer (housekeeping_timers t s) = pth_press_timer s"
  "second_press_timer (housekeeping_timers t s) = second_press_timer s"
  "pth_press_timer_max_reached (housekeeping_timers t s) = pth_press_timer_max_reached s"
  "second_press_timer_max_reached (housekeeping_timers t s) = second_press_timer_max_reached s"
  "durs (housekeeping_timers t s) = durs s"
  by (simp_all add: housekeeping_timers_def Let_def)

text \<open>The three timers that are checked in every state.\<close>

lemma housekeeping_timers_checks:
  "release_timer_max_reached (housekeeping_timers t s)
     \<or> TIMER_DIFF_16 t (release_timer (housekeeping_timers t s)) < MS_MAX_DUR_FOR_TIMERS"
  "press_to_press_timer_max_reached (housekeeping_timers t s)
     \<or> TIMER_DIFF_16 t (press_to_press_timer (housekeeping_timers t s)) < MS_MAX_DUR_FOR_TIMERS"
  "overlap_timer_max_reached (housekeeping_timers t s) \<or> down_count (housekeeping_timers t s) < 2
     \<or> TIMER_DIFF_16 t (overlap_timer (housekeeping_timers t s)) < MS_MAX_DUR_FOR_TIMERS"
  by (simp_all add: housekeeping_timers_def Let_def not_le not_less)

lemma housekeeping_pth_press_timer_checks:
  assumes r: "release_timer_max_reached s
              \<or> TIMER_DIFF_16 t (release_timer s) < MS_MAX_DUR_FOR_TIMERS"
    and p: "press_to_press_timer_max_reached s
              \<or> TIMER_DIFF_16 t (press_to_press_timer s) < MS_MAX_DUR_FOR_TIMERS"
    and ov: "overlap_timer_max_reached s \<or> down_count s < 2
              \<or> TIMER_DIFF_16 t (overlap_timer s) < MS_MAX_DUR_FOR_TIMERS"
    and sec: "second_press_timer_max_reached s \<or> pth_status s \<noteq> PTH_SECOND_PRESSED
              \<or> TIMER_DIFF_16 t (second_press_timer s) < MS_MAX_DUR_FOR_TIMERS"
  shows "timers_checked t (housekeeping_pth_press_timer c e h t s)"
proof (cases "pth_press_timer_max_reached s")
  case True
  then have "housekeeping_pth_press_timer c e h t s = s"
    by (simp add: housekeeping_pth_press_timer_def)
  with True r p ov sec show ?thesis by (simp add: timers_checked_def)
next
  case nm: False
  show ?thesis
  proof (cases "TIMER_DIFF_16 t (pth_press_timer s) \<ge> MS_MAX_DUR_FOR_TIMERS")
    case True
    with nm have "housekeeping_pth_press_timer c e h t s = s\<lparr>pth_press_timer_max_reached := True\<rparr>"
      by (simp add: housekeeping_pth_press_timer_def)
    with r p ov sec show ?thesis by (simp add: timers_checked_def)
  next
    case False
    then have lt: "TIMER_DIFF_16 t (pth_press_timer s) < MS_MAX_DUR_FOR_TIMERS" by simp
    define s' where "s' = make_user_choice_or_not c e h s"
    have cases: "housekeeping_pth_press_timer c e h t s = s
                 \<or> housekeeping_pth_press_timer c e h t s = s'"
      using nm False by (simp add: housekeeping_pth_press_timer_def s'_def)
    have a: "timers_checked t s" using r p ov sec lt by (simp add: timers_checked_def)
    have st: "pth_status s' = pth_status s \<or> pth_status s' = PTH_IDLE
              \<or> pth_status s' = PTH_DECIDED_TAP \<or> pth_status s' = PTH_DECIDED_HOLD"
      unfolding s'_def by (rule user_choice_status)
    have fl: "pth_status s' = PTH_IDLE
              \<or> second_press_timer_max_reached s' = second_press_timer_max_reached s"
      unfolding s'_def by (rule user_choice_flags)
    have cl: "release_timer s' = release_timer s"
      "release_timer_max_reached s' = release_timer_max_reached s"
      "press_to_press_timer s' = press_to_press_timer s"
      "press_to_press_timer_max_reached s' = press_to_press_timer_max_reached s"
      "overlap_timer s' = overlap_timer s"
      "overlap_timer_max_reached s' = overlap_timer_max_reached s"
      "down_count s' = down_count s"
      "pth_press_timer s' = pth_press_timer s"
      "second_press_timer s' = second_press_timer s"
      unfolding s'_def by (rule user_choice_clocks)+
    have five: "second_press_timer_max_reached s' \<or> pth_status s' \<noteq> PTH_SECOND_PRESSED
              \<or> TIMER_DIFF_16 t (second_press_timer s) < MS_MAX_DUR_FOR_TIMERS"
      using st fl sec by auto
    have b: "timers_checked t s'"
      unfolding timers_checked_def cl using r p ov lt five by simp
    from cases show ?thesis
    proof
      assume "housekeeping_pth_press_timer c e h t s = s"
      then show ?thesis using a by simp
    next
      assume "housekeeping_pth_press_timer c e h t s = s'"
      then show ?thesis using b by simp
    qed
  qed
qed

lemma housekeeping_checks: "timers_checked t (housekeeping_task_predictive_tap_hold c e h t s)"
proof -
  define s1 where "s1 = housekeeping_timers t s"
  have r: "release_timer_max_reached s1
              \<or> TIMER_DIFF_16 t (release_timer s1) < MS_MAX_DUR_FOR_TIMERS"
    and p: "press_to_press_timer_max_reached s1
              \<or> TIMER_DIFF_16 t (press_to_press_timer s1) < MS_MAX_DUR_FOR_TIMERS"
    and ov: "overlap_timer_max_reached s1 \<or> down_count s1 < 2
              \<or> TIMER_DIFF_16 t (overlap_timer s1) < MS_MAX_DUR_FOR_TIMERS"
    unfolding s1_def by (rule housekeeping_timers_checks)+
  have hk: "housekeeping_task_predictive_tap_hold c e h t s =
     (if pth_status s1 = PTH_IDLE \<or> status_num (pth_status s1) \<ge> status_num PTH_DECIDED_TAP
         then s1
         else if \<not> second_press_timer_max_reached s1 \<and> pth_status s1 = PTH_SECOND_PRESSED then
           if min_overlap_dur_for_hold s1 > 0
              \<and> TIMER_DIFF_16 t (second_press_timer s1) \<ge> min_overlap_dur_for_hold s1
           then make_decision_hold e h s1
           else housekeeping_pth_press_timer c e h t
                  (if TIMER_DIFF_16 t (second_press_timer s1) \<ge> MS_MAX_DUR_FOR_TIMERS
                      then s1\<lparr>second_press_timer_max_reached := True\<rparr> else s1)
         else housekeeping_pth_press_timer c e h t s1)"
    by (simp add: housekeeping_task_predictive_tap_hold_def s1_def Let_def)
  show ?thesis
  proof (cases "pth_status s1 = PTH_IDLE \<or> status_num (pth_status s1) \<ge> status_num PTH_DECIDED_TAP")
    case True
    then have st: "pth_status s1 \<noteq> PTH_PRESSED" "pth_status s1 \<noteq> PTH_SECOND_PRESSED" by auto
    from True have "housekeeping_task_predictive_tap_hold c e h t s = s1" unfolding hk by simp
    then show ?thesis using r p ov st by (simp add: timers_checked_def)
  next
    case nd: False
    show ?thesis
    proof (cases "\<not> second_press_timer_max_reached s1 \<and> pth_status s1 = PTH_SECOND_PRESSED")
      case sp: True
      show ?thesis
      proof (cases "min_overlap_dur_for_hold s1 > 0
              \<and> TIMER_DIFF_16 t (second_press_timer s1) \<ge> min_overlap_dur_for_hold s1")
        case True
        define s' where "s' = make_decision_hold e h s1"
        from nd sp True have eq: "housekeeping_task_predictive_tap_hold c e h t s = s'"
          unfolding hk s'_def by simp
        have "pth_status s' = PTH_DECIDED_HOLD"
          using decision_status(2)[of e h s1] sp unfolding s'_def by simp
        then have st: "pth_status s' \<noteq> PTH_PRESSED" "pth_status s' \<noteq> PTH_SECOND_PRESSED"
          by simp_all
        have cl: "release_timer s' = release_timer s1"
          "release_timer_max_reached s' = release_timer_max_reached s1"
          "press_to_press_timer s' = press_to_press_timer s1"
          "press_to_press_timer_max_reached s' = press_to_press_timer_max_reached s1"
          "overlap_timer s' = overlap_timer s1"
          "overlap_timer_max_reached s' = overlap_timer_max_reached s1"
          "down_count s' = down_count s1"
          unfolding s'_def by (simp_all add: decision_clocks)
        show ?thesis unfolding eq timers_checked_def cl using r p ov st by simp
      next
        case False
        define s2 where "s2 = (if TIMER_DIFF_16 t (second_press_timer s1) \<ge> MS_MAX_DUR_FOR_TIMERS
                      then s1\<lparr>second_press_timer_max_reached := True\<rparr> else s1)"
        have eq: "housekeeping_task_predictive_tap_hold c e h t s
            = housekeeping_pth_press_timer c e h t s2"
          unfolding hk s2_def by (simp only: if_not_P[OF nd] if_P[OF sp] if_not_P[OF False])
        have "second_press_timer_max_reached s2 \<or> pth_status s2 \<noteq> PTH_SECOND_PRESSED
              \<or> TIMER_DIFF_16 t (second_press_timer s2) < MS_MAX_DUR_FOR_TIMERS"
          by (simp add: s2_def not_le)
        moreover have "release_timer_max_reached s2
              \<or> TIMER_DIFF_16 t (release_timer s2) < MS_MAX_DUR_FOR_TIMERS"
          using r by (simp add: s2_def)
        moreover have "press_to_press_timer_max_reached s2
              \<or> TIMER_DIFF_16 t (press_to_press_timer s2) < MS_MAX_DUR_FOR_TIMERS"
          using p by (simp add: s2_def)
        moreover have "overlap_timer_max_reached s2 \<or> down_count s2 < 2
              \<or> TIMER_DIFF_16 t (overlap_timer s2) < MS_MAX_DUR_FOR_TIMERS"
          using ov by (simp add: s2_def)
        ultimately show ?thesis unfolding eq
          by (intro housekeeping_pth_press_timer_checks)
      qed
    next
      case False
      have eq: "housekeeping_task_predictive_tap_hold c e h t s
            = housekeeping_pth_press_timer c e h t s1"
        unfolding hk by (simp only: if_not_P[OF nd] if_not_P[OF False])
      from False have "second_press_timer_max_reached s1 \<or> pth_status s1 \<noteq> PTH_SECOND_PRESSED
              \<or> TIMER_DIFF_16 t (second_press_timer s1) < MS_MAX_DUR_FOR_TIMERS"
        by blast
      with r p ov show ?thesis unfolding eq by (intro housekeeping_pth_press_timer_checks)
    qed
  qed
qed

lemma housekeeping_durs [simp]:
  "durs (housekeeping_task_predictive_tap_hold c e h t s) = durs s"
proof -
  have "\<And>x. durs (housekeeping_pth_press_timer c e h t x) = durs x"
    by (simp add: housekeeping_pth_press_timer_def)
  then show ?thesis
    by (simp add: housekeeping_task_predictive_tap_hold_def Let_def housekeeping_timers_fields)
qed


subsection \<open>The timers between two housekeeping calls\<close>

lemma timer_diff_self [simp]: "TIMER_DIFF_16 t t = 0"
  by (simp add: TIMER_DIFF_16_def)

lemma timer_diff_later:
  assumes "unat (TIMER_DIFF_16 t x) < unat MS_MAX_DUR_FOR_TIMERS + g"
    and "g + unat (TIMER_DIFF_16 t' t) \<le> 1"
  shows "unat (TIMER_DIFF_16 t' x) < unat MS_MAX_DUR_FOR_TIMERS + (g + unat (TIMER_DIFF_16 t' t))"
proof -
  have eq: "TIMER_DIFF_16 t' x = TIMER_DIFF_16 t x + TIMER_DIFF_16 t' t"
    by (simp add: TIMER_DIFF_16_def)
  have "unat (TIMER_DIFF_16 t x) + unat (TIMER_DIFF_16 t' t) < 2 ^ LENGTH(16)"
    using assms by (simp add: MS_MAX_DUR_FOR_TIMERS_def)
  then have "unat (TIMER_DIFF_16 t x + TIMER_DIFF_16 t' t)
      = unat (TIMER_DIFF_16 t x) + unat (TIMER_DIFF_16 t' t)"
    by (rule unat_add_lem[THEN iffD1])
  with assms(1) show ?thesis unfolding eq by simp
qed

lemma timer_diff_fresh:
  "g + unat (TIMER_DIFF_16 t' t) \<le> 1
   \<Longrightarrow> unat (TIMER_DIFF_16 t' t) < unat MS_MAX_DUR_FOR_TIMERS + (g + unat (TIMER_DIFF_16 t' t))"
  by (simp add: MS_MAX_DUR_FOR_TIMERS_def)

lemma timer_diff_in_range:
  assumes "unat d < unat MS_MAX_DUR_FOR_TIMERS + g" and "g \<le> 1"
  shows "d \<le> MS_MAX_DUR_FOR_TIMERS"
  using assms by (simp add: word_le_nat_alt)

lemma dur_in_range_le:
  "d \<le> MS_MAX_DUR_FOR_TIMERS \<Longrightarrow> dur_in_range d"
  "d \<le> MS_MAX_DUR_FOR_TIMERS \<Longrightarrow> dur_in_range_or_unset d"
  by (simp_all add: dur_in_range_iff dur_in_range_or_unset_iff MS_MAX_DUR_FOR_TIMERS_def)

lemma timers_checked_within: "timers_checked t s \<Longrightarrow> timers_within 0 t s"
  by (simp add: timers_checked_def timers_within_def word_less_nat_alt)

lemma timers_within_later:
  assumes "timers_within g t s" and "g + unat (TIMER_DIFF_16 t' t) \<le> 1"
  shows "timers_within (g + unat (TIMER_DIFF_16 t' t)) t' s"
proof -
  note l = timer_diff_later[OF _ assms(2)]
  from assms(1) have r: "release_timer_max_reached s
        \<or> unat (TIMER_DIFF_16 t (release_timer s)) < unat MS_MAX_DUR_FOR_TIMERS + g"
    and p: "press_to_press_timer_max_reached s
          \<or> unat (TIMER_DIFF_16 t (press_to_press_timer s)) < unat MS_MAX_DUR_FOR_TIMERS + g"
    and ov: "overlap_timer_max_reached s \<or> down_count s < 2
          \<or> unat (TIMER_DIFF_16 t (overlap_timer s)) < unat MS_MAX_DUR_FOR_TIMERS + g"
    and pt: "pth_press_timer_max_reached s
          \<or> (pth_status s \<noteq> PTH_PRESSED \<and> pth_status s \<noteq> PTH_SECOND_PRESSED)
          \<or> unat (TIMER_DIFF_16 t (pth_press_timer s)) < unat MS_MAX_DUR_FOR_TIMERS + g"
    and sec: "second_press_timer_max_reached s \<or> pth_status s \<noteq> PTH_SECOND_PRESSED
          \<or> unat (TIMER_DIFF_16 t (second_press_timer s)) < unat MS_MAX_DUR_FOR_TIMERS + g"
    by (simp_all add: timers_within_def)
  from r have r': "release_timer_max_reached s \<or> unat (TIMER_DIFF_16 t' (release_timer s))
      < unat MS_MAX_DUR_FOR_TIMERS + (g + unat (TIMER_DIFF_16 t' t))"
    using l by blast
  from p have p': "press_to_press_timer_max_reached s
      \<or> unat (TIMER_DIFF_16 t' (press_to_press_timer s))
      < unat MS_MAX_DUR_FOR_TIMERS + (g + unat (TIMER_DIFF_16 t' t))"
    using l by blast
  from ov have ov': "overlap_timer_max_reached s \<or> down_count s < 2
      \<or> unat (TIMER_DIFF_16 t' (overlap_timer s))
      < unat MS_MAX_DUR_FOR_TIMERS + (g + unat (TIMER_DIFF_16 t' t))"
    using l by blast
  from pt have pt': "pth_press_timer_max_reached s
      \<or> (pth_status s \<noteq> PTH_PRESSED \<and> pth_status s \<noteq> PTH_SECOND_PRESSED)
      \<or> unat (TIMER_DIFF_16 t' (pth_press_timer s))
      < unat MS_MAX_DUR_FOR_TIMERS + (g + unat (TIMER_DIFF_16 t' t))"
    using l by blast
  from sec have sec': "second_press_timer_max_reached s \<or> pth_status s \<noteq> PTH_SECOND_PRESSED
      \<or> unat (TIMER_DIFF_16 t' (second_press_timer s))
      < unat MS_MAX_DUR_FOR_TIMERS + (g + unat (TIMER_DIFF_16 t' t))"
    using l by blast
  from r' p' ov' pt' sec' show ?thesis unfolding timers_within_def by (intro conjI)
qed

lemma clocks_kept_refl [simp]: "clocks_kept s s"
  by (simp add: clocks_kept_def)

lemma clocks_kept_trans:
  assumes "clocks_kept s s'" and "clocks_kept s' s''"
  shows "clocks_kept s s''"
proof -
  from assms have a: "release_timer s'' = release_timer s"
    "release_timer_max_reached s'' = release_timer_max_reached s"
    "press_to_press_timer s'' = press_to_press_timer s"
    "press_to_press_timer_max_reached s'' = press_to_press_timer_max_reached s"
    "overlap_timer s'' = overlap_timer s"
    "overlap_timer_max_reached s'' = overlap_timer_max_reached s"
    "down_count s'' = down_count s"
    "pth_press_timer s'' = pth_press_timer s"
    "second_press_timer s'' = second_press_timer s"
    by (simp_all add: clocks_kept_def)
  from assms(1) have b: "pth_status s' = pth_status s
          \<and> pth_press_timer_max_reached s' = pth_press_timer_max_reached s
          \<and> second_press_timer_max_reached s' = second_press_timer_max_reached s
        \<or> pth_status s' = PTH_IDLE \<or> pth_status s' = PTH_DECIDED_TAP
        \<or> pth_status s' = PTH_DECIDED_HOLD"
    unfolding clocks_kept_def by (elim conjE)
  from assms(2) have c: "pth_status s'' = pth_status s'
          \<and> pth_press_timer_max_reached s'' = pth_press_timer_max_reached s'
          \<and> second_press_timer_max_reached s'' = second_press_timer_max_reached s'
        \<or> pth_status s'' = PTH_IDLE \<or> pth_status s'' = PTH_DECIDED_TAP
        \<or> pth_status s'' = PTH_DECIDED_HOLD"
    unfolding clocks_kept_def by (elim conjE)
  from b c have "pth_status s'' = pth_status s
          \<and> pth_press_timer_max_reached s'' = pth_press_timer_max_reached s
          \<and> second_press_timer_max_reached s'' = second_press_timer_max_reached s
        \<or> pth_status s'' = PTH_IDLE \<or> pth_status s'' = PTH_DECIDED_TAP
        \<or> pth_status s'' = PTH_DECIDED_HOLD"
    by metis
  with a show ?thesis unfolding clocks_kept_def by (intro conjI)
qed

lemma clocks_kept_within:
  assumes "clocks_kept s s'" and "timers_within g t s"
  shows "timers_within g t s'"
proof -
  from assms(1) have a: "release_timer s' = release_timer s"
    "release_timer_max_reached s' = release_timer_max_reached s"
    "press_to_press_timer s' = press_to_press_timer s"
    "press_to_press_timer_max_reached s' = press_to_press_timer_max_reached s"
    "overlap_timer s' = overlap_timer s"
    "overlap_timer_max_reached s' = overlap_timer_max_reached s"
    "down_count s' = down_count s"
    "pth_press_timer s' = pth_press_timer s"
    "second_press_timer s' = second_press_timer s"
    by (simp_all add: clocks_kept_def)
  from assms(1) have b: "pth_status s' = pth_status s
          \<and> pth_press_timer_max_reached s' = pth_press_timer_max_reached s
          \<and> second_press_timer_max_reached s' = second_press_timer_max_reached s
        \<or> pth_status s' = PTH_IDLE \<or> pth_status s' = PTH_DECIDED_TAP
        \<or> pth_status s' = PTH_DECIDED_HOLD"
    unfolding clocks_kept_def by (elim conjE)
  from assms(2) have pt: "pth_press_timer_max_reached s
          \<or> (pth_status s \<noteq> PTH_PRESSED \<and> pth_status s \<noteq> PTH_SECOND_PRESSED)
          \<or> unat (TIMER_DIFF_16 t (pth_press_timer s)) < unat MS_MAX_DUR_FOR_TIMERS + g"
    and sec: "second_press_timer_max_reached s \<or> pth_status s \<noteq> PTH_SECOND_PRESSED
          \<or> unat (TIMER_DIFF_16 t (second_press_timer s)) < unat MS_MAX_DUR_FOR_TIMERS + g"
    by (simp_all add: timers_within_def)
  from b pt have pt': "pth_press_timer_max_reached s'
          \<or> (pth_status s' \<noteq> PTH_PRESSED \<and> pth_status s' \<noteq> PTH_SECOND_PRESSED)
          \<or> unat (TIMER_DIFF_16 t (pth_press_timer s)) < unat MS_MAX_DUR_FOR_TIMERS + g"
    by auto
  from b sec have sec': "second_press_timer_max_reached s' \<or> pth_status s' \<noteq> PTH_SECOND_PRESSED
          \<or> unat (TIMER_DIFF_16 t (second_press_timer s)) < unat MS_MAX_DUR_FOR_TIMERS + g"
    by auto
  from assms(2) pt' sec' show ?thesis unfolding timers_within_def a by simp
qed

lemma clocks_kept_upd [simp]:
  "clocks_kept s0 (s\<lparr>pth_prev_status := v0\<rparr>) = clocks_kept s0 s"
  "clocks_kept s0 (s\<lparr>pth_keycode := v1\<rparr>) = clocks_kept s0 s"
  "clocks_kept s0 (s\<lparr>pth_tap_code_instead_of_hold := v2\<rparr>) = clocks_kept s0 s"
  "clocks_kept s0 (s\<lparr>pth_record := v3\<rparr>) = clocks_kept s0 s"
  "clocks_kept s0 (s\<lparr>pth_atomic_side := v4\<rparr>) = clocks_kept s0 s"
  "clocks_kept s0 (s\<lparr>pth_side_user_bits := v5\<rparr>) = clocks_kept s0 s"
  "clocks_kept s0 (s\<lparr>pth_was_held_instantly := v6\<rparr>) = clocks_kept s0 s"
  "clocks_kept s0 (s\<lparr>second_was_held_instantly := v7\<rparr>) = clocks_kept s0 s"
  "clocks_kept s0 (s\<lparr>instant_layer_was_active := v8\<rparr>) = clocks_kept s0 s"
  "clocks_kept s0 (s\<lparr>layer_before_instant_layer_tap := v9\<rparr>) = clocks_kept s0 s"
  "clocks_kept s0 (s\<lparr>has_second := v10\<rparr>) = clocks_kept s0 s"
  "clocks_kept s0 (s\<lparr>second_record := v11\<rparr>) = clocks_kept s0 s"
  "clocks_kept s0 (s\<lparr>second_keycode := v12\<rparr>) = clocks_kept s0 s"
  "clocks_kept s0 (s\<lparr>second_is_tap_hold := v13\<rparr>) = clocks_kept s0 s"
  "clocks_kept s0 (s\<lparr>second_is_same_side_as_pth := v14\<rparr>) = clocks_kept s0 s"
  "clocks_kept s0 (s\<lparr>second_to_be_released := v15\<rparr>) = clocks_kept s0 s"
  "clocks_kept s0 (s\<lparr>timeout_for_forcing_choice := v16\<rparr>) = clocks_kept s0 s"
  "clocks_kept s0 (s\<lparr>has_chosen_after_timeout_reached := v17\<rparr>) = clocks_kept s0 s"
  "clocks_kept s0 (s\<lparr>min_overlap_dur_for_hold := v18\<rparr>) = clocks_kept s0 s"
  "clocks_kept s0 (s\<lparr>pth_press_to_second_press_dur := v19\<rparr>) = clocks_kept s0 s"
  "clocks_kept s0 (s\<lparr>pth_press_to_second_release_dur := v20\<rparr>) = clocks_kept s0 s"
  "clocks_kept s0 (s\<lparr>pth_second_dur := v21\<rparr>) = clocks_kept s0 s"
  "clocks_kept s0 (s\<lparr>pth_second_press_to_third_press_dur := v22\<rparr>) = clocks_kept s0 s"
  "clocks_kept s0 (s\<lparr>pth_prev_prev_press_to_prev_press_dur := v23\<rparr>) = clocks_kept s0 s"
  "clocks_kept s0 (s\<lparr>pth_prev_press_to_pth_press_dur := v24\<rparr>) = clocks_kept s0 s"
  "clocks_kept s0 (s\<lparr>pth_prev_prev_overlap_dur := v25\<rparr>) = clocks_kept s0 s"
  "clocks_kept s0 (s\<lparr>pth_prev_overlap_dur := v26\<rparr>) = clocks_kept s0 s"
  "clocks_kept s0 (s\<lparr>key_release_before_pth_to_pth_press_dur := v27\<rparr>) = clocks_kept s0 s"
  "clocks_kept s0 (s\<lparr>prev_press_keycode := v28\<rparr>) = clocks_kept s0 s"
  "clocks_kept s0 (s\<lparr>cur_press_keycode := v29\<rparr>) = clocks_kept s0 s"
  "clocks_kept s0 (s\<lparr>prev_press_to_press_dur := v30\<rparr>) = clocks_kept s0 s"
  "clocks_kept s0 (s\<lparr>cur_press_to_press_dur := v31\<rparr>) = clocks_kept s0 s"
  "clocks_kept s0 (s\<lparr>prev_overlap_dur := v32\<rparr>) = clocks_kept s0 s"
  "clocks_kept s0 (s\<lparr>cur_overlap_dur := v33\<rparr>) = clocks_kept s0 s"
  "clocks_kept s0 (s\<lparr>release_as_tap_positions := v34\<rparr>) = clocks_kept s0 s"
  "clocks_kept s0 (s\<lparr>used_release_as_tap_positions_bitmask := v35\<rparr>) = clocks_kept s0 s"
  "clocks_kept s0 (s\<lparr>release_records := v36\<rparr>) = clocks_kept s0 s"
  "clocks_kept s0 (s\<lparr>is_before_second_bitmask := v37\<rparr>) = clocks_kept s0 s"
  "clocks_kept s0 (s\<lparr>used_release_records_bitmask := v38\<rparr>) = clocks_kept s0 s"
  "clocks_kept s0 (s\<lparr>is_processing_record_due_to_pth := v39\<rparr>) = clocks_kept s0 s"
  "clocks_kept s0 (s\<lparr>out := v40\<rparr>) = clocks_kept s0 s"
  by (simp_all add: clocks_kept_def)

lemma clocks_kept_prims [simp]:
  "clocks_kept s0 (emit a s) = clocks_kept s0 s"
  "clocks_kept s0 (send_and_wait s) = clocks_kept s0 s"
  "clocks_kept s0 (tap_code16 kc s) = clocks_kept s0 s"
  "clocks_kept s0 (process_record_with_new_time r s) = clocks_kept s0 s"
  "clocks_kept s0 (on_pth_record process_register_record_as_tap s) = clocks_kept s0 s"
  "clocks_kept s0 (on_pth_record process_unregister_record_as_tap s) = clocks_kept s0 s"
  "clocks_kept s0 (on_pth_record process_register_record_as_hold s) = clocks_kept s0 s"
  "clocks_kept s0 (on_pth_record process_unregister_record_as_hold s) = clocks_kept s0 s"
  "clocks_kept s0 (on_second_record process_register_record s) = clocks_kept s0 s"
  "clocks_kept s0 (on_second_record process_unregister_record s) = clocks_kept s0 s"
  "clocks_kept s0 (on_second_record process_register_record_as_hold s) = clocks_kept s0 s"
  "clocks_kept s0 (on_second_record process_unregister_record_as_hold s) = clocks_kept s0 s"
  "clocks_kept s0 (snd (process_register_record_as_tap r s)) = clocks_kept s0 s"
  "clocks_kept s0 (snd (process_register_record_as_hold r s)) = clocks_kept s0 s"
  "clocks_kept s0 (snd (process_unregister_record_as_tap r s)) = clocks_kept s0 s"
  "clocks_kept s0 (add_pos_to_tap_releases p s) = clocks_kept s0 s"
  "clocks_kept s0 (unregister_pth_hold s) = clocks_kept s0 s"
  "clocks_kept s0 (snd (remove_pos_from_tap_releases p s)) = clocks_kept s0 s"
  by (simp_all add: emit_defs add_pos_to_tap_releases_def Let_def
      unregister_pth_hold_def remove_pos_from_tap_releases_def remove_pos_loop_frame)

lemma clocks_kept_decisions:
  assumes "clocks_kept s0 s"
  shows "clocks_kept s0 (make_decision_tap e h s)"
    and "clocks_kept s0 (make_decision_hold e h s)"
    and "clocks_kept s0 (reset_pth_state s)"
proof -
  have "clocks_kept s (make_decision_tap e h s)"
    unfolding clocks_kept_def using decision_status(1)[of e h s]
    by (simp add: decision_clocks) blast
  with assms show "clocks_kept s0 (make_decision_tap e h s)" by (rule clocks_kept_trans)
  have "clocks_kept s (make_decision_hold e h s)"
    unfolding clocks_kept_def using decision_status(2)[of e h s]
    by (simp add: decision_clocks) blast
  with assms show "clocks_kept s0 (make_decision_hold e h s)" by (rule clocks_kept_trans)
  have "clocks_kept s (reset_pth_state s)"
    by (simp add: clocks_kept_def reset_pth_state_def)
  with assms show "clocks_kept s0 (reset_pth_state s)" by (rule clocks_kept_trans)
qed

lemma clocks_kept_tap_chosen_reset:
  "clocks_kept s0 s \<Longrightarrow> clocks_kept s0 (tap_chosen_reset c s)"
  by (simp add: tap_chosen_reset_def clocks_kept_decisions)

lemma clocks_kept_user_choice:
  "clocks_kept s0 s \<Longrightarrow> clocks_kept s0 (make_user_choice_or_not c e h s)"
  by (simp add: make_user_choice_or_not_def Let_def clocks_kept_decisions)

lemmas clocks_kept_steps = clocks_kept_decisions clocks_kept_tap_chosen_reset
  clocks_kept_user_choice

lemma result_state_simps [simp]:
  "result_state (Inr (b, s)) = s" "result_state (Inl (err, s)) = s"
  by (simp_all add: result_state_def)

lemma clocks_kept_pass_through:
  "clocks_kept s0 s \<Longrightarrow> clocks_kept s0 (result_state (pass_through r s))"
  by (simp add: pass_through_def)

lemma clocks_kept_cached:
  "clocks_kept s0 s \<Longrightarrow> clocks_kept s0 (result_state (cached (add_release_record r rt s)))"
  by (simp add: cached_def add_release_record_def Let_def)

lemma clocks_kept_idle_press_rest:
  "clocks_kept s0 s \<Longrightarrow> clocks_kept s0 (result_state (idle_press_rest c e h kc s))"
  by (simp add: idle_press_rest_def Let_def clocks_kept_steps)

lemma clocks_kept_second_press_decide:
  "clocks_kept s0 s \<Longrightarrow> clocks_kept s0 (result_state (second_press_decide c e h s))"
  by (simp add: second_press_decide_def Let_def clocks_kept_steps)

lemma clocks_kept_decided_tap_case:
  "clocks_kept s0 s \<Longrightarrow> clocks_kept s0 (result_state (decided_tap_case kc r s))"
  by (simp add: decided_tap_case_def Let_def clocks_kept_steps clocks_kept_pass_through)

lemma clocks_kept_decided_hold_case:
  "clocks_kept s0 s \<Longrightarrow> clocks_kept s0 (result_state (decided_hold_case h kc r s))"
  by (simp add: decided_hold_case_def Let_def clocks_kept_steps clocks_kept_pass_through)

lemma clocks_kept_pth_release_after_second:
  "clocks_kept s0 s \<Longrightarrow> clocks_kept s0 (pth_release_after_second e h s)"
  by (simp add: pth_release_after_second_def Let_def clocks_kept_steps)

lemma clocks_kept_third_press:
  "clocks_kept s0 s \<Longrightarrow> clocks_kept s0 (third_press c e h kc r t s)"
  by (simp add: third_press_def Let_def clocks_kept_steps)

lemma clocks_kept_second_release:
  "clocks_kept s0 s \<Longrightarrow> clocks_kept s0 (second_release c e h t s)"
  by (simp add: second_release_def Let_def clocks_kept_steps)

lemma word8_less_2: "(w :: uint8_t) < 2 \<Longrightarrow> w = 0 \<or> w = 1"
proof -
  assume "w < 2"
  then have "unat w < 2" by (simp add: word_less_nat_alt)
  then have "unat w = 0 \<or> unat w = 1" by arith
  then show ?thesis by (auto simp add: word_unat_eq_iff)
qed

lemma collect_in_range:
  assumes "durations_in_range s" and "timers_within g t s" and "g \<le> 1"
  shows "durations_in_range (collect_new_press_to_press_and_overlap_duration p t s)"
proof (cases p)
  case True
  from assms(2) have "press_to_press_timer_max_reached s
      \<or> unat (TIMER_DIFF_16 t (press_to_press_timer s)) < unat MS_MAX_DUR_FOR_TIMERS + g"
    by (simp add: timers_within_def)
  then have "\<not> press_to_press_timer_max_reached s
      \<Longrightarrow> dur_in_range_or_unset (TIMER_DIFF_16 t (press_to_press_timer s))"
    using timer_diff_in_range[OF _ assms(3)] by (auto intro: dur_in_range_le)
  with assms(1) True show ?thesis
    by (simp add: collect_new_press_to_press_and_overlap_duration_def Let_def
        durations_in_range_def)
next
  case False
  from assms(2) have "overlap_timer_max_reached s \<or> down_count s < 2
      \<or> unat (TIMER_DIFF_16 t (overlap_timer s)) < unat MS_MAX_DUR_FOR_TIMERS + g"
    by (simp add: timers_within_def)
  then have "down_count s \<ge> 2 \<Longrightarrow> \<not> overlap_timer_max_reached s
      \<Longrightarrow> dur_in_range_or_unset (TIMER_DIFF_16 t (overlap_timer s))"
    using timer_diff_in_range[OF _ assms(3)] by (auto intro: dur_in_range_le)
  with assms(1) False show ?thesis
    by (simp add: collect_new_press_to_press_and_overlap_duration_def Let_def
        durations_in_range_def)
qed

lemma collect_within:
  assumes "timers_within g t s"
  shows "timers_within g t (collect_new_press_to_press_and_overlap_duration p t s)"
proof -
  from assms have r: "release_timer_max_reached s
        \<or> unat (TIMER_DIFF_16 t (release_timer s)) < unat MS_MAX_DUR_FOR_TIMERS + g"
    and pp: "press_to_press_timer_max_reached s
          \<or> unat (TIMER_DIFF_16 t (press_to_press_timer s)) < unat MS_MAX_DUR_FOR_TIMERS + g"
    and ov: "overlap_timer_max_reached s \<or> down_count s < 2
          \<or> unat (TIMER_DIFF_16 t (overlap_timer s)) < unat MS_MAX_DUR_FOR_TIMERS + g"
    and pt: "pth_press_timer_max_reached s
          \<or> (pth_status s \<noteq> PTH_PRESSED \<and> pth_status s \<noteq> PTH_SECOND_PRESSED)
          \<or> unat (TIMER_DIFF_16 t (pth_press_timer s)) < unat MS_MAX_DUR_FOR_TIMERS + g"
    and sec: "second_press_timer_max_reached s \<or> pth_status s \<noteq> PTH_SECOND_PRESSED
          \<or> unat (TIMER_DIFF_16 t (second_press_timer s)) < unat MS_MAX_DUR_FOR_TIMERS + g"
    by (simp_all add: timers_within_def)
  have z: "0 < unat MS_MAX_DUR_FOR_TIMERS + g" by (simp add: MS_MAX_DUR_FOR_TIMERS_def)
  show ?thesis
  proof (cases p)
    case True
    show ?thesis
    proof (cases "down_count s + 1 = 2")
      case two: True
      with True r pt sec z show ?thesis
        by (simp add: collect_new_press_to_press_and_overlap_duration_def Let_def
            timers_within_def)
    next
      case False
      have "down_count s < 2 \<Longrightarrow> down_count s + 1 < 2"
        using word8_less_2[of "down_count s"] False by auto
      with ov have "overlap_timer_max_reached s \<or> down_count s + 1 < 2
          \<or> unat (TIMER_DIFF_16 t (overlap_timer s)) < unat MS_MAX_DUR_FOR_TIMERS + g"
        by blast
      with True False r pt sec z show ?thesis
        by (simp add: collect_new_press_to_press_and_overlap_duration_def Let_def
            timers_within_def)
    qed
  next
    case False
    with pp pt sec z show ?thesis
      by (simp add: collect_new_press_to_press_and_overlap_duration_def Let_def
          timers_within_def)
  qed
qed

lemma collect_ready:
  assumes "timers_within g t s" and "g + unat (TIMER_DIFF_16 t' t) \<le> 1"
  shows "timers_ready t t' (collect_new_press_to_press_and_overlap_duration p t s)"
proof -
  from assms(2) have g1: "g \<le> 1" and g2: "g + unat (TIMER_DIFF_16 t' t) \<le> 1" by simp_all
  from assms(1) have r: "release_timer_max_reached s
        \<or> unat (TIMER_DIFF_16 t (release_timer s)) < unat MS_MAX_DUR_FOR_TIMERS + g"
    and ov: "overlap_timer_max_reached s \<or> down_count s < 2
          \<or> unat (TIMER_DIFF_16 t (overlap_timer s)) < unat MS_MAX_DUR_FOR_TIMERS + g"
    and pt: "pth_press_timer_max_reached s
          \<or> (pth_status s \<noteq> PTH_PRESSED \<and> pth_status s \<noteq> PTH_SECOND_PRESSED)
          \<or> unat (TIMER_DIFF_16 t (pth_press_timer s)) < unat MS_MAX_DUR_FOR_TIMERS + g"
    and sec: "second_press_timer_max_reached s \<or> pth_status s \<noteq> PTH_SECOND_PRESSED
          \<or> unat (TIMER_DIFF_16 t (second_press_timer s)) < unat MS_MAX_DUR_FOR_TIMERS + g"
    by (simp_all add: timers_within_def)
  from r have r': "release_timer_max_reached s
        \<or> TIMER_DIFF_16 t (release_timer s) \<le> MS_MAX_DUR_FOR_TIMERS"
    using timer_diff_in_range[OF _ g1] by blast
  from pt have pt': "pth_press_timer_max_reached s
          \<or> (pth_status s \<noteq> PTH_PRESSED \<and> pth_status s \<noteq> PTH_SECOND_PRESSED)
          \<or> TIMER_DIFF_16 t (pth_press_timer s) \<le> MS_MAX_DUR_FOR_TIMERS"
    using timer_diff_in_range[OF _ g1] by blast
  from sec have sec': "second_press_timer_max_reached s \<or> pth_status s \<noteq> PTH_SECOND_PRESSED
          \<or> TIMER_DIFF_16 t (second_press_timer s) \<le> MS_MAX_DUR_FOR_TIMERS"
    using timer_diff_in_range[OF _ g1] by blast
  from ov have ov': "overlap_timer_max_reached s \<or> down_count s < 2
          \<or> TIMER_DIFF_16 t' (overlap_timer s) \<le> MS_MAX_DUR_FOR_TIMERS"
    using timer_diff_in_range[OF timer_diff_later[OF _ g2] g2] by blast
  have fresh: "TIMER_DIFF_16 t' t \<le> MS_MAX_DUR_FOR_TIMERS"
    using timer_diff_in_range[OF timer_diff_fresh[OF g2] g2] .
  have z: "(0::uint16_t) \<le> MS_MAX_DUR_FOR_TIMERS" by simp
  show ?thesis
  proof (cases p)
    case True
    show ?thesis
    proof (cases "down_count s + 1 = 2")
      case two: True
      with True r' pt' sec' fresh show ?thesis
        by (simp add: collect_new_press_to_press_and_overlap_duration_def Let_def
            timers_ready_def)
    next
      case False
      with True r' pt' sec' ov' show ?thesis
        by (simp add: collect_new_press_to_press_and_overlap_duration_def Let_def
            timers_ready_def)
    qed
  next
    case False
    with pt' sec' fresh z show ?thesis
      by (simp add: collect_new_press_to_press_and_overlap_duration_def Let_def
          timers_ready_def)
  qed
qed

lemma durs_pass_through [simp]: "durs (result_state (pass_through r s)) = durs s"
  by (simp add: pass_through_def)

lemma durs_cached [simp]:
  "durs (result_state (cached (add_release_record r rt s))) = durs s"
  by (simp add: cached_def add_release_record_def Let_def)

lemma durs_idle_press_rest [simp]:
  "durs (result_state (idle_press_rest c e h kc s)) = durs s"
  by (simp add: idle_press_rest_def Let_def)

lemma durs_second_press_decide [simp]:
  "durs (result_state (second_press_decide c e h s)) = durs s"
  by (simp add: second_press_decide_def Let_def)

lemma durs_decided_tap_case [simp]:
  "durs (result_state (decided_tap_case kc r s)) = durs s"
  by (simp add: decided_tap_case_def Let_def)

lemma durs_decided_hold_case [simp]:
  "durs (result_state (decided_hold_case h kc r s)) = durs s"
  by (simp add: decided_hold_case_def Let_def)

lemma durs_pth_release_after_second [simp]:
  "durs (pth_release_after_second e h s) = durs s"
  by (simp add: pth_release_after_second_def Let_def)

lemma in_range_durs:
  "durs s' = durs s \<Longrightarrow> durations_in_range s \<Longrightarrow> durations_in_range s'"
  by (simp add: durs_def durations_in_range_def)

lemma in_range_durs2:
  assumes "durs s' = durs a \<or> durs s' = durs b"
    and "durations_in_range a" and "durations_in_range b"
  shows "durations_in_range s'"
  using assms(1)
proof
  assume "durs s' = durs a"
  then show ?thesis using assms(2) by (rule in_range_durs)
next
  assume "durs s' = durs b"
  then show ?thesis using assms(3) by (rule in_range_durs)
qed

lemma store_in_range:
  assumes "durations_in_range s"
    and "overlap_timer_max_reached s \<or> down_count s - 1 < 2
          \<or> TIMER_DIFF_16 t (overlap_timer s) \<le> MS_MAX_DUR_FOR_TIMERS"
  shows "durations_in_range (store_press_to_press_and_overlap_for_pth t s)"
proof -
  from assms(2) have "down_count s - 1 \<ge> 2 \<Longrightarrow> \<not> overlap_timer_max_reached s
      \<Longrightarrow> dur_in_range_or_unset (TIMER_DIFF_16 t (overlap_timer s))"
    by (auto simp add: dur_in_range_le)
  with assms(1) show ?thesis
    by (simp add: store_press_to_press_and_overlap_for_pth_def Let_def durations_in_range_def)
qed

lemma idle_press_capture_in_range:
  assumes "durations_in_range s" and "timers_ready t t' s"
  shows "durations_in_range (idle_press_capture h keycode record t t' s)"
proof -
  define s1 where "s1 = (s\<lparr>pth_status := PTH_PRESSED, pth_press_timer := t, pth_keycode := keycode,
      pth_record := record\<rparr>)"
  define s2 where "s2 = s1\<lparr>pth_side_user_bits := PTH_GET_USER_BITS (hk_get_side h s1 record),
      pth_atomic_side := PTH_GET_PTH_ATOM_SIDE (hk_get_side h s1 record),
      key_release_before_pth_to_pth_press_dur :=
        (if release_timer_max_reached s then MS_MAX_DUR_FOR_TIMERS
         else TIMER_DIFF_16 t (release_timer s))\<rparr>"
  from assms(2) have r: "release_timer_max_reached s
      \<or> TIMER_DIFF_16 t (release_timer s) \<le> MS_MAX_DUR_FOR_TIMERS"
    and ov: "overlap_timer_max_reached s \<or> down_count s - 1 < 2
          \<or> TIMER_DIFF_16 t' (overlap_timer s) \<le> MS_MAX_DUR_FOR_TIMERS"
    by (simp_all add: timers_ready_def)
  from r have "dur_in_range (if release_timer_max_reached s then MS_MAX_DUR_FOR_TIMERS
         else TIMER_DIFF_16 t (release_timer s))"
    by (auto simp add: dur_in_range_le)
  with assms(1) have d2: "durations_in_range s2"
    by (simp add: s2_def s1_def durations_in_range_def)
  have ov2: "overlap_timer_max_reached s2 \<or> down_count s2 - 1 < 2
          \<or> TIMER_DIFF_16 t' (overlap_timer s2) \<le> MS_MAX_DUR_FOR_TIMERS"
    using ov by (simp add: s2_def s1_def)
  have "durs (idle_press_capture h keycode record t t' s)
      = durs (store_press_to_press_and_overlap_for_pth t' s2)"
    by (simp add: idle_press_capture_def Let_def s2_def s1_def)
  then show ?thesis using store_in_range[OF d2 ov2] by (rule in_range_durs)
qed

lemma idle_case_in_range:
  assumes "durations_in_range s" and "timers_ready t t' s"
  shows "durations_in_range (result_state (idle_case c e h keycode record t t' s))"
proof -
  have "durs (result_state (idle_case c e h keycode record t t' s)) = durs s
      \<or> durs (result_state (idle_case c e h keycode record t t' s))
          = durs (idle_press_capture h keycode record t t' s)"
    by (simp add: idle_case_def Let_def)
  then show ?thesis using assms(1) idle_press_capture_in_range[OF assms, of h keycode "record"]
    by (rule in_range_durs2)
qed

lemma second_press_capture_in_range:
  assumes "durations_in_range s" and "timers_ready t t' s" and "pth_status s = PTH_PRESSED"
  shows "durations_in_range (second_press_capture h keycode record t s)"
proof -
  from assms(2,3) have "pth_press_timer_max_reached s
       \<or> TIMER_DIFF_16 t (pth_press_timer s) \<le> MS_MAX_DUR_FOR_TIMERS"
    by (simp add: timers_ready_def)
  then have "\<not> pth_press_timer_max_reached s
      \<Longrightarrow> dur_in_range (TIMER_DIFF_16 t (pth_press_timer s))"
    by (auto simp add: dur_in_range_le)
  with assms(1) show ?thesis
    by (simp add: second_press_capture_def Let_def durations_in_range_def)
qed

lemma pressed_case_in_range:
  assumes "durations_in_range s" and "timers_ready t t' s" and "pth_status s = PTH_PRESSED"
  shows "durations_in_range (result_state (pressed_case c e h keycode record t s))"
proof -
  have "durs (result_state (pressed_case c e h keycode record t s)) = durs s
      \<or> durs (result_state (pressed_case c e h keycode record t s))
          = durs (second_press_capture h keycode record t s)"
    by (simp add: pressed_case_def Let_def)
  then show ?thesis
    using assms(1) second_press_capture_in_range[OF assms, of h keycode "record"]
    by (rule in_range_durs2)
qed

lemma third_press_in_range:
  assumes "durations_in_range s" and "timers_ready t t' s" and "pth_status s = PTH_SECOND_PRESSED"
  shows "durations_in_range (third_press c e h keycode record t s)"
proof -
  define s1 where "s1 = s\<lparr>pth_second_press_to_third_press_dur :=
      (if second_press_timer_max_reached s then MS_MAX_DUR_FOR_TIMERS
       else TIMER_DIFF_16 t (second_press_timer s))\<rparr>"
  from assms(2,3) have "second_press_timer_max_reached s
       \<or> TIMER_DIFF_16 t (second_press_timer s) \<le> MS_MAX_DUR_FOR_TIMERS"
    by (simp add: timers_ready_def)
  then have "dur_in_range (if second_press_timer_max_reached s then MS_MAX_DUR_FOR_TIMERS
       else TIMER_DIFF_16 t (second_press_timer s))"
    by (auto simp add: dur_in_range_le)
  with assms(1) have d1: "durations_in_range s1"
    by (simp add: s1_def durations_in_range_def)
  have "durs (third_press c e h keycode record t s) = durs s1"
    by (simp add: third_press_def Let_def s1_def)
  then show ?thesis using d1 by (rule in_range_durs)
qed

lemma second_release_in_range:
  assumes "durations_in_range s" and "timers_ready t t' s" and "pth_status s = PTH_SECOND_PRESSED"
  shows "durations_in_range (second_release c e h t s)"
proof -
  from assms(2,3) have "second_press_timer_max_reached s
       \<or> TIMER_DIFF_16 t (second_press_timer s) \<le> MS_MAX_DUR_FOR_TIMERS"
    and "pth_press_timer_max_reached s
       \<or> TIMER_DIFF_16 t (pth_press_timer s) \<le> MS_MAX_DUR_FOR_TIMERS"
    by (simp_all add: timers_ready_def)
  then have a: "dur_in_range (if second_press_timer_max_reached s then MS_MAX_DUR_FOR_TIMERS
       else TIMER_DIFF_16 t (second_press_timer s))"
    and b: "dur_in_range (if pth_press_timer_max_reached s then MS_MAX_DUR_FOR_TIMERS
       else TIMER_DIFF_16 t (pth_press_timer s))"
    by (auto simp add: dur_in_range_le)
  define s1 where "s1 = s\<lparr>second_to_be_released := True,
      pth_press_to_second_release_dur :=
        (if pth_press_timer_max_reached s then MS_MAX_DUR_FOR_TIMERS
         else TIMER_DIFF_16 t (pth_press_timer s)),
      pth_second_dur :=
        (if second_press_timer_max_reached s then MS_MAX_DUR_FOR_TIMERS
         else TIMER_DIFF_16 t (second_press_timer s))\<rparr>"
  from a b assms(1) have d1: "durations_in_range s1"
    by (simp add: s1_def durations_in_range_def)
  have "durs (second_release c e h t s) = durs s \<or> durs (second_release c e h t s) = durs s1"
    by (simp add: second_release_def Let_def s1_def)
  then show ?thesis using assms(1) d1 by (rule in_range_durs2)
qed

lemma second_pressed_case_in_range:
  assumes "durations_in_range s" and "timers_ready t t' s" and "pth_status s = PTH_SECOND_PRESSED"
  shows "durations_in_range (result_state (second_pressed_case c e h keycode record t s))"
proof -
  have a: "durations_in_range (pth_release_after_second e h s)"
    using _ assms(1) by (rule in_range_durs) simp
  have b: "durations_in_range (result_state (cached (add_release_record record AFTER_SECOND s)))"
    using _ assms(1) by (rule in_range_durs) simp
  show ?thesis
    using a b third_press_in_range[OF assms, of c e h keycode "record"]
      second_release_in_range[OF assms, of c e h]
    by (simp add: second_pressed_case_def)
qed

lemma state_machine_in_range:
  assumes "durations_in_range s" and "timers_ready t t' s"
  shows "durations_in_range (result_state (state_machine c e h keycode record t t' s))"
proof (cases "pth_status s")
  case PTH_IDLE
  then show ?thesis using idle_case_in_range[OF assms] by (simp add: state_machine_def)
next
  case PTH_PRESSED
  then show ?thesis using pressed_case_in_range[OF assms] by (simp add: state_machine_def)
next
  case PTH_SECOND_PRESSED
  then show ?thesis using second_pressed_case_in_range[OF assms] by (simp add: state_machine_def)
next
  case PTH_DECIDED_TAP
  have "durations_in_range (result_state (decided_tap_case keycode record s))"
    using _ assms(1) by (rule in_range_durs) simp
  with PTH_DECIDED_TAP show ?thesis by (simp add: state_machine_def)
next
  case PTH_DECIDED_HOLD
  have "durations_in_range (result_state (decided_hold_case h keycode record s))"
    using _ assms(1) by (rule in_range_durs) simp
  with PTH_DECIDED_HOLD show ?thesis by (simp add: state_machine_def)
qed

lemma idle_press_capture_within:
  assumes "timers_within g t s"
  shows "timers_within g t (idle_press_capture h keycode record t t' s)"
proof -
  define x where "x = idle_press_capture h keycode record t t' s"
  have f: "release_timer x = release_timer s"
    "release_timer_max_reached x = release_timer_max_reached s"
    "press_to_press_timer x = press_to_press_timer s"
    "press_to_press_timer_max_reached x = press_to_press_timer_max_reached s"
    "overlap_timer x = overlap_timer s"
    "overlap_timer_max_reached x = overlap_timer_max_reached s"
    "down_count x = down_count s"
    "pth_press_timer x = t" "pth_status x = PTH_PRESSED"
    by (simp_all add: x_def idle_press_capture_def Let_def
        store_press_to_press_and_overlap_for_pth_def)
  have z: "0 < unat MS_MAX_DUR_FOR_TIMERS + g" by (simp add: MS_MAX_DUR_FOR_TIMERS_def)
  from assms z show ?thesis unfolding x_def[symmetric] timers_within_def f by simp
qed

lemma second_press_capture_within:
  assumes "timers_within g t s" and "pth_status s = PTH_PRESSED"
  shows "timers_within g t (second_press_capture h keycode record t s)"
proof -
  define x where "x = second_press_capture h keycode record t s"
  have f: "release_timer x = release_timer s"
    "release_timer_max_reached x = release_timer_max_reached s"
    "press_to_press_timer x = press_to_press_timer s"
    "press_to_press_timer_max_reached x = press_to_press_timer_max_reached s"
    "overlap_timer x = overlap_timer s"
    "overlap_timer_max_reached x = overlap_timer_max_reached s"
    "down_count x = down_count s"
    "pth_press_timer x = pth_press_timer s"
    "pth_press_timer_max_reached x = pth_press_timer_max_reached s"
    "second_press_timer x = t" "pth_status x = PTH_SECOND_PRESSED"
    by (simp_all add: x_def second_press_capture_def Let_def)
  have z: "0 < unat MS_MAX_DUR_FOR_TIMERS + g" by (simp add: MS_MAX_DUR_FOR_TIMERS_def)
  from assms z show ?thesis unfolding x_def[symmetric] timers_within_def f by simp
qed

lemma idle_case_within:
  assumes "timers_within g t s"
  shows "timers_within g t (result_state (idle_case c e h keycode record t t' s))"
proof -
  define x where "x = idle_press_capture h keycode record t t' s"
  have x: "timers_within g t x" unfolding x_def using assms by (rule idle_press_capture_within)
  have "clocks_kept s (result_state (idle_case c e h keycode record t t' s))
      \<or> clocks_kept x (result_state (idle_case c e h keycode record t t' s))"
    by (simp add: idle_case_def Let_def x_def[symmetric] clocks_kept_pass_through
        clocks_kept_idle_press_rest clocks_kept_steps)
  then show ?thesis
  proof
    assume "clocks_kept s (result_state (idle_case c e h keycode record t t' s))"
    then show ?thesis using assms by (rule clocks_kept_within)
  next
    assume "clocks_kept x (result_state (idle_case c e h keycode record t t' s))"
    then show ?thesis using x by (rule clocks_kept_within)
  qed
qed

lemma pressed_case_within:
  assumes "timers_within g t s" and "pth_status s = PTH_PRESSED"
  shows "timers_within g t (result_state (pressed_case c e h keycode record t s))"
proof -
  define x where "x = second_press_capture h keycode record t s"
  have x: "timers_within g t x" unfolding x_def using assms by (rule second_press_capture_within)
  have "clocks_kept s (result_state (pressed_case c e h keycode record t s))
      \<or> clocks_kept x (result_state (pressed_case c e h keycode record t s))"
    by (simp add: pressed_case_def Let_def x_def[symmetric] clocks_kept_cached
        clocks_kept_second_press_decide clocks_kept_steps)
  then show ?thesis
  proof
    assume "clocks_kept s (result_state (pressed_case c e h keycode record t s))"
    then show ?thesis using assms(1) by (rule clocks_kept_within)
  next
    assume "clocks_kept x (result_state (pressed_case c e h keycode record t s))"
    then show ?thesis using x by (rule clocks_kept_within)
  qed
qed

lemma state_machine_within:
  assumes "timers_within g t s"
  shows "timers_within g t (result_state (state_machine c e h keycode record t t' s))"
proof (cases "pth_status s")
  case PTH_IDLE
  then show ?thesis using idle_case_within[OF assms] by (simp add: state_machine_def)
next
  case PTH_PRESSED
  then show ?thesis using pressed_case_within[OF assms] by (simp add: state_machine_def)
next
  case PTH_SECOND_PRESSED
  have "clocks_kept s (result_state (second_pressed_case c e h keycode record t s))"
    by (simp add: second_pressed_case_def clocks_kept_third_press clocks_kept_second_release
        clocks_kept_pth_release_after_second clocks_kept_cached)
  then have "timers_within g t (result_state (second_pressed_case c e h keycode record t s))"
    using assms by (rule clocks_kept_within)
  with PTH_SECOND_PRESSED show ?thesis by (simp add: state_machine_def)
next
  case PTH_DECIDED_TAP
  have "clocks_kept s (result_state (decided_tap_case keycode record s))"
    by (simp add: clocks_kept_decided_tap_case)
  then have "timers_within g t (result_state (decided_tap_case keycode record s))"
    using assms by (rule clocks_kept_within)
  with PTH_DECIDED_TAP show ?thesis by (simp add: state_machine_def)
next
  case PTH_DECIDED_HOLD
  have "clocks_kept s (result_state (decided_hold_case h keycode record s))"
    by (simp add: clocks_kept_decided_hold_case)
  then have "timers_within g t (result_state (decided_hold_case h keycode record s))"
    using assms by (rule clocks_kept_within)
  with PTH_DECIDED_HOLD show ?thesis by (simp add: state_machine_def)
qed

text \<open>One key event, handled \<open>g\<close> milliseconds after the housekeeping task.\<close>

lemma process_record_paced:
  assumes d: "durations_in_range s" and w: "timers_within g t s"
    and g: "g + unat (TIMER_DIFF_16 cur_time t) + unat (TIMER_DIFF_16 elapsed_now cur_time) \<le> 1"
  shows "durations_in_range
           (result_state (process_record_predictive_tap_hold c e h keycode record
              cur_time elapsed_now s))"
    and "timers_within (g + unat (TIMER_DIFF_16 cur_time t)
                          + unat (TIMER_DIFF_16 elapsed_now cur_time)) elapsed_now
           (result_state (process_record_predictive_tap_hold c e h keycode record
              cur_time elapsed_now s))"
proof -
  define g1 where "g1 = g + unat (TIMER_DIFF_16 cur_time t)"
  from g have g1: "g + unat (TIMER_DIFF_16 cur_time t) \<le> 1" "g1 \<le> 1"
    and g2: "g1 + unat (TIMER_DIFF_16 elapsed_now cur_time) \<le> 1"
    by (simp_all add: g1_def)
  have w0: "timers_within g1 cur_time s"
    unfolding g1_def using w g1(1) by (rule timers_within_later)
  define s1 where
    "s1 = collect_new_press_to_press_and_overlap_duration (pressed record) cur_time s"
  have d1: "durations_in_range s1" unfolding s1_def using d w0 g1(2) by (rule collect_in_range)
  have w1: "timers_within g1 cur_time s1" unfolding s1_def using w0 by (rule collect_within)
  have r1: "timers_ready cur_time elapsed_now s1"
    unfolding s1_def using w0 g2 by (rule collect_ready)
  define s2 where "s2 = s1\<lparr>prev_press_keycode := cur_press_keycode s1,
      cur_press_keycode := keycode\<rparr>"
  have d2: "durations_in_range s2" using _ d1 by (rule in_range_durs) (simp add: s2_def)
  have r2: "timers_ready cur_time elapsed_now s2" using r1 by (simp add: timers_ready_def s2_def)
  have w2: "timers_within g1 cur_time s2" using w1 by (simp add: timers_within_def s2_def)
  obtain b s3 where rp: "remove_pos_from_tap_releases (key record) s1 = (b, s3)"
    by (cases "remove_pos_from_tap_releases (key record) s1")
  have "snd (remove_pos_from_tap_releases (key record) s1)
      = s1\<lparr>used_release_as_tap_positions_bitmask :=
            tap_mask_after (key record) (used_release_as_tap_positions_bitmask s1) s1\<rparr>"
    by (simp add: remove_pos_from_tap_releases_def remove_pos_loop_frame)
  with rp have s3: "s3 = s1\<lparr>used_release_as_tap_positions_bitmask :=
            tap_mask_after (key record) (used_release_as_tap_positions_bitmask s1) s1\<rparr>"
    by simp
  have d3: "durations_in_range s3" using _ d1 by (rule in_range_durs) (simp add: s3)
  have r3: "timers_ready cur_time elapsed_now s3" using r1 by (simp add: timers_ready_def s3)
  have w3: "timers_within g1 cur_time s3" using w1 by (simp add: timers_within_def s3)
  have A: "durations_in_range
      (result_state (state_machine c e h keycode record cur_time elapsed_now s2))"
    using d2 r2 by (rule state_machine_in_range)
  have A': "timers_within g1 cur_time
      (result_state (state_machine c e h keycode record cur_time elapsed_now s2))"
    using w2 by (rule state_machine_within)
  have B: "\<And>r'. durations_in_range
      (result_state (state_machine c e h keycode r' cur_time elapsed_now s3))"
    using d3 r3 by (rule state_machine_in_range)
  have B': "\<And>r'. timers_within g1 cur_time
      (result_state (state_machine c e h keycode r' cur_time elapsed_now s3))"
    using w3 by (rule state_machine_within)
  have C: "durations_in_range (snd (process_unregister_record_as_tap record s3))"
    using _ d3 by (rule in_range_durs) simp
  have "clocks_kept s3 (snd (process_unregister_record_as_tap record s3))" by simp
  then have C': "timers_within g1 cur_time (snd (process_unregister_record_as_tap record s3))"
    using w3 by (rule clocks_kept_within)
  define res where "res = result_state (process_record_predictive_tap_hold c e h keycode record
              cur_time elapsed_now s)"
  have "process_record_predictive_tap_hold c e h keycode record cur_time elapsed_now s
        = Inr (True, s)
    \<or> process_record_predictive_tap_hold c e h keycode record cur_time elapsed_now s
        = state_machine c e h keycode record cur_time elapsed_now s2
    \<or> process_record_predictive_tap_hold c e h keycode record cur_time elapsed_now s
        = state_machine c e h keycode record cur_time elapsed_now s3
    \<or> process_record_predictive_tap_hold c e h keycode record cur_time elapsed_now s
        = state_machine c e h keycode (set_record_to_tap record) cur_time elapsed_now s3
    \<or> process_record_predictive_tap_hold c e h keycode record cur_time elapsed_now s
        = Inr (False, snd (process_unregister_record_as_tap record s3))"
    using rp
    by (cases b) (simp_all add: process_record_predictive_tap_hold_def Let_def s1_def[symmetric]
        s2_def[symmetric])
  then have both: "durations_in_range res \<and> timers_within g1 cur_time res"
    unfolding res_def using d w0 A A' B B' C C' by (elim disjE) simp_all
  then show "durations_in_range
           (result_state (process_record_predictive_tap_hold c e h keycode record
              cur_time elapsed_now s))"
    unfolding res_def by (rule conjunct1)
  from both have "timers_within g1 cur_time res" by (rule conjunct2)
  then have "timers_within (g1 + unat (TIMER_DIFF_16 elapsed_now cur_time)) elapsed_now res"
    using g2 by (rule timers_within_later)
  then show "timers_within (g + unat (TIMER_DIFF_16 cur_time t)
                          + unat (TIMER_DIFF_16 elapsed_now cur_time)) elapsed_now
           (result_state (process_record_predictive_tap_hold c e h keycode record
              cur_time elapsed_now s))"
    unfolding res_def g1_def .
qed

lemma run_state_simps [simp]: "run_state (Inr s) = s" "run_state (Inl (err, s)) = s"
  by (simp_all add: run_state_def)

lemma run_in_range:
  "well_paced g t ins \<Longrightarrow> durations_in_range s \<Longrightarrow> timers_within g t s
   \<Longrightarrow> durations_in_range (run_state (run c e h ins s))"
proof (induction g t ins arbitrary: s rule: well_paced.induct)
  case (1 g t)
  then show ?case by simp
next
  case (2 g t t' rest)
  define s1 where "s1 = housekeeping_task_predictive_tap_hold c e h t' s"
  have d1: "durations_in_range s1" using _ "2.prems"(2) by (rule in_range_durs) (simp add: s1_def)
  have "timers_checked t' s1" unfolding s1_def by (rule housekeeping_checks)
  then have w1: "timers_within 0 t' s1" by (rule timers_checked_within)
  from "2.prems"(1) have "well_paced 0 t' rest" by simp
  from "2.IH"[OF this d1 w1] show ?case by (simp add: s1_def)
next
  case (3 g t keycode r cur_time elapsed_now rest)
  define g' where "g' = g + unat (TIMER_DIFF_16 cur_time t)
      + unat (TIMER_DIFF_16 elapsed_now cur_time)"
  from "3.prems"(1) have g: "g + unat (TIMER_DIFF_16 cur_time t)
      + unat (TIMER_DIFF_16 elapsed_now cur_time) \<le> 1"
    and rest: "well_paced g' elapsed_now rest"
    by (simp_all add: g'_def)
  define res where
    "res = process_record_predictive_tap_hold c e h keycode r cur_time elapsed_now s"
  have d2: "durations_in_range (result_state res)"
    unfolding res_def using "3.prems"(2,3) g by (rule process_record_paced(1))
  have w2: "timers_within g' elapsed_now (result_state res)"
    unfolding res_def g'_def using "3.prems"(2,3) g by (rule process_record_paced(2))
  have eq: "run c e h (Key_event keycode r cur_time elapsed_now # rest) s
      = (case res of Inl err \<Rightarrow> Inl err | Inr (b, s') \<Rightarrow> run c e h rest s')"
    by (simp add: res_def split: sum.splits prod.splits)
  show ?case
  proof (cases res)
    case (Inl err)
    obtain er sx where "err = (er, sx)" by (cases err)
    with Inl d2 show ?thesis unfolding eq by simp
  next
    case (Inr p)
    obtain b s2 where p: "p = (b, s2)" by (cases p)
    with Inr d2 w2 have "durations_in_range s2" "timers_within g' elapsed_now s2" by simp_all
    from "3.IH"[OF rest[unfolded g'_def] this(1) this(2)[unfolded g'_def]] Inr p
    show ?thesis unfolding eq by simp
  qed
qed

lemma initial_in_range:
  "durations_in_range (keyboard_post_init_predictive_tap_hold t0 init_state)"
  by (simp add: keyboard_post_init_predictive_tap_hold_def init_state_def durations_in_range_def
      dur_in_range_iff)

lemma initial_within:
  "timers_within 1 t0 (keyboard_post_init_predictive_tap_hold t0 init_state)"
  by (simp add: keyboard_post_init_predictive_tap_hold_def init_state_def timers_within_def
      TIMER_DIFF_16_def MS_MAX_DUR_FOR_TIMERS_def)

text \<open>
  C7, amended. From the state after \<^verbatim>\<open>keyboard_post_init_predictive_tap_hold\<close> at the
  timer reading \<open>t0\<close>, along every sequence of key events and housekeeping ticks in which
  no key event is handled more than one millisecond after the housekeeping task last ran
  (the state after the initialisation counting as one millisecond past such a call),
  every duration handed to the predictors lies within 0 and \<open>MS_MAX_DUR_FOR_TIMERS\<close> or,
  for the \<^verbatim>\<open>int16_t\<close> ones, still is the initial \<open>-1\<close>. The same holds of the four
  durations of the timing tracker. A run is followed as far as the release cache holds:
  it ends with the state in which a release finds the cache full, and nothing is said of
  what the C code does from there.
\<close>

theorem durations_within_max:
  assumes "well_paced 1 t0 ins"
  shows "durations_in_range
     (run_state (run c e h ins (keyboard_post_init_predictive_tap_hold t0 init_state)))"
  using assms initial_in_range initial_within by (rule run_in_range)

text \<open>
  The theorem on a run with two key events after one housekeeping call, and with the
  press of the mod-tap one millisecond after the call at 4096 ms, 4096 ms after the last
  release: the duration stored is 4096.
\<close>

theorem durations_within_max_witness:
  "well_paced 1 0 [Tick 0, Key_event KC_A (key_at 1 True) 0 0,
           Key_event KC_A (key_at 1 False) 1 1, Tick 4096,
           Key_event LCTL_T_A (key_at 0 True) 4097 4097]
   \<and> durations_in_range (run_state (run example_config example_env example_hooks
          [Tick 0, Key_event KC_A (key_at 1 True) 0 0,
           Key_event KC_A (key_at 1 False) 1 1, Tick 4096,
           Key_event LCTL_T_A (key_at 0 True) 4097 4097]
          (keyboard_post_init_predictive_tap_hold 0 init_state)))
   \<and> key_release_before_pth_to_pth_press_dur (run_state (run example_config example_env
          example_hooks
          [Tick 0, Key_event KC_A (key_at 1 True) 0 0,
           Key_event KC_A (key_at 1 False) 1 1, Tick 4096,
           Key_event LCTL_T_A (key_at 0 True) 4097 4097]
          (keyboard_post_init_predictive_tap_hold 0 init_state))) = 4096"
proof -
  have t: "well_paced 1 0 [Tick 0, Key_event KC_A (key_at 1 True) 0 0,
           Key_event KC_A (key_at 1 False) 1 1, Tick 4096,
           Key_event LCTL_T_A (key_at 0 True) 4097 4097]"
    by (simp add: TIMER_DIFF_16_def)
  have v: "key_release_before_pth_to_pth_press_dur (run_state (run example_config example_env
          example_hooks
          [Tick 0, Key_event KC_A (key_at 1 True) 0 0,
           Key_event KC_A (key_at 1 False) 1 1, Tick 4096,
           Key_event LCTL_T_A (key_at 0 True) 4097 4097]
          (keyboard_post_init_predictive_tap_hold 0 init_state))) = 4096"
    by code_simp
  from t durations_within_max[OF t, of example_config example_env example_hooks] v
  show ?thesis by (intro conjI)
qed

end
